theory Spec2Isabelle
  imports Main
begin

section \<open>Subtask status records\<close>

text \<open>
  \<^verbatim>\<open>SubtaskStatus\<close> of \<^verbatim>\<open>agent/hierarchical_agent.py\<close>: a dataclass with a name, a
  \<^verbatim>\<open>done\<close> flag (default False) and an optional error text (default None). The class has
  two mutators and no other state: there is no field that marks a status as running.
\<close>

record SubtaskStatus =
  name :: string
  "done" :: bool
  error :: "string option"

definition new_status :: "string \<Rightarrow> SubtaskStatus" where
  "new_status s = \<lparr>name = s, done = False, error = None\<rparr>"

definition mark_done :: "SubtaskStatus \<Rightarrow> SubtaskStatus" where
  "mark_done st = st\<lparr>done := True\<rparr>"

definition mark_error :: "SubtaskStatus \<Rightarrow> string \<Rightarrow> SubtaskStatus" where
  "mark_error st err = st\<lparr>error := Some err\<rparr>"

text \<open>
  The lifecycle a status record can be read as. \<open>Running\<close> is a state of the
  specification; \<open>state_of\<close> never yields it, since the record has nothing that could
  hold it.
\<close>

datatype lifecycle = Pending | Running | Done | Failed

definition state_of :: "SubtaskStatus \<Rightarrow> lifecycle" where
  "state_of st = (if done st then Done else if error st \<noteq> None then Failed else Pending)"

definition is_pending :: "SubtaskStatus \<Rightarrow> bool" where
  "is_pending st = (state_of st = Pending)"

definition is_terminal :: "SubtaskStatus \<Rightarrow> bool" where
  "is_terminal st = (state_of st = Done \<or> state_of st = Failed)"

definition running_count :: "SubtaskStatus list \<Rightarrow> nat" where
  "running_count sts = length (filter (\<lambda>st. state_of st = Running) sts)"

text \<open>
  The invariant of the status list when \<open>k\<close> subtasks have reached their outcome: the
  first \<open>k\<close> records are terminal, all the others are pending, and at most one is
  running.
\<close>

definition status_inv :: "nat \<Rightarrow> SubtaskStatus list \<Rightarrow> bool" where
  "status_inv k sts =
     (k \<le> length sts \<and> running_count sts \<le> 1 \<and>
      list_all is_terminal (take k sts) \<and> list_all is_pending (drop k sts))"

section \<open>Python values the code relies on\<close>

datatype exn =
    ChainError string
  | TypeError string
  | TimeoutError string
  | ExecError string
  | CancelledError
  | IndexError

text \<open>
  Each exception is kept with its class and the text \<^verbatim>\<open>str()\<close> gives for it.
  \<open>ChainError\<close> is whatever an LLM chain raises; \<open>TimeoutError\<close> is
  \<^verbatim>\<open>asyncio.TimeoutError\<close>, with the empty text when \<^verbatim>\<open>wait_for\<close> raises it at the
  deadline; \<open>ExecError\<close> is any other \<^verbatim>\<open>Exception\<close> raised by the step executor;
  \<open>CancelledError\<close> is a cancellation (a \<^verbatim>\<open>BaseException\<close>, which
  \<^verbatim>\<open>except Exception\<close> does not catch).
\<close>

fun str_nat :: "nat \<Rightarrow> string" where
  "str_nat n =
     (if n < 10 then [char_of (48 + n)]
      else str_nat (n div 10) @ [char_of (48 + n mod 10)])"

declare str_nat.simps [simp del]

text \<open>
  A Python float is kept as the text \<^verbatim>\<open>str()\<close> gives for it (\<^verbatim>\<open>60.0\<close> is
  \<open>Float ''60.0''\<close>); floating point arithmetic is not needed by the code modelled here.
\<close>

datatype pyfloat = Float string

fun str_float :: "pyfloat \<Rightarrow> string" where
  "str_float (Float s) = s"

text \<open>
  A Python string is kept as the bytes of its UTF-8 encoding. \<^verbatim>\<open>str.strip()\<close> removes
  from both ends the characters \<^verbatim>\<open>str.isspace()\<close> accepts: U+0009 to U+000D, U+001C to
  U+0020, U+0085, U+00A0, U+1680, U+2000 to U+200A, U+2028, U+2029, U+202F, U+205F and
  U+3000, here in their encodings.
\<close>

definition whitespace :: "string list" where
  "whitespace =
     [[CHR 0x09], [CHR 0x0A], [CHR 0x0B], [CHR 0x0C], [CHR 0x0D],
      [CHR 0x1C], [CHR 0x1D], [CHR 0x1E], [CHR 0x1F], [CHR 0x20],
      [CHR 0xC2, CHR 0x85], [CHR 0xC2, CHR 0xA0], [CHR 0xE1, CHR 0x9A, CHR 0x80],
      [CHR 0xE2, CHR 0x80, CHR 0x80], [CHR 0xE2, CHR 0x80, CHR 0x81],
      [CHR 0xE2, CHR 0x80, CHR 0x82], [CHR 0xE2, CHR 0x80, CHR 0x83],
      [CHR 0xE2, CHR 0x80, CHR 0x84], [CHR 0xE2, CHR 0x80, CHR 0x85],
      [CHR 0xE2, CHR 0x80, CHR 0x86], [CHR 0xE2, CHR 0x80, CHR 0x87],
      [CHR 0xE2, CHR 0x80, CHR 0x88], [CHR 0xE2, CHR 0x80, CHR 0x89],
      [CHR 0xE2, CHR 0x80, CHR 0x8A], [CHR 0xE2, CHR 0x80, CHR 0xA8],
      [CHR 0xE2, CHR 0x80, CHR 0xA9], [CHR 0xE2, CHR 0x80, CHR 0xAF],
      [CHR 0xE2, CHR 0x81, CHR 0x9F], [CHR 0xE3, CHR 0x80, CHR 0x80]]"

text \<open>Removes, as long as there is one, a leading occurrence of one of the given texts.\<close>

function drop_leading :: "string list \<Rightarrow> string \<Rightarrow> string" where
  "drop_leading wss s =
     (case find (\<lambda>ws. ws \<noteq> [] \<and> take (length ws) s = ws) wss of
        None \<Rightarrow> s
      | Some ws \<Rightarrow> drop_leading wss (drop (length ws) s))"
  by pat_completeness auto
termination
proof (relation "measure (\<lambda>(wss, s). length s)")
  show "wf (measure (\<lambda>(wss, s). length s))" by simp
next
  fix wss :: "string list" and s ws :: string
  assume "find (\<lambda>ws. ws \<noteq> [] \<and> take (length ws) s = ws) wss = Some ws"
  then have ws: "ws \<noteq> []" and t: "take (length ws) s = ws"
    by (auto simp: find_Some_iff)
  from ws t have "s \<noteq> []" by auto
  with ws show "((wss, drop (length ws) s), (wss, s)) \<in> measure (\<lambda>(wss, s). length s)"
    by (cases ws) auto
qed

declare drop_leading.simps [simp del]

definition strip :: "string \<Rightarrow> string" where
  "strip s = rev (drop_leading (map rev whitespace) (rev (drop_leading whitespace s)))"

definition join_lines :: "string list \<Rightarrow> string" where
  "join_lines ls = (case ls of [] \<Rightarrow> [] | l # rest \<Rightarrow> l @ concat (map (\<lambda>x. CHR 0x0A # x) rest))"

definition dict_get :: "(string \<times> 'v) list \<Rightarrow> string \<Rightarrow> 'v \<Rightarrow> 'v" where
  "dict_get d k dflt = (case map_of d k of None \<Rightarrow> dflt | Some v \<Rightarrow> v)"

section \<open>The planner\<close>

text \<open>
  \<^verbatim>\<open>ChecklistPlanner\<close> of \<^verbatim>\<open>agent/planner.py\<close>. The two LLM chains are external: each
  either raises or returns a plan whose \<^verbatim>\<open>steps\<close> is a list of Python values.
\<close>

datatype pyval = PyStr string | PyInt int | PyNone

datatype chain_result = ChainRaised exn | ChainPlan "pyval list"

record ChecklistPlanner =
  planner_chain :: "string \<Rightarrow> chain_result"
  refine_chain :: "pyval list \<Rightarrow> chain_result"

fun isinstance_str :: "pyval \<Rightarrow> bool" where
  "isinstance_str (PyStr s) = True"
| "isinstance_str v = False"

fun str_value :: "pyval \<Rightarrow> string" where
  "str_value (PyStr s) = s"
| "str_value v = []"

definition plan :: "ChecklistPlanner \<Rightarrow> string \<Rightarrow> string \<Rightarrow> exn + string list" where
  "plan pl task website =
     (let full_task = strip task @ ''. Website: '' @ strip website in
      case planner_chain pl full_task of
        ChainRaised e \<Rightarrow> Inl e
      | ChainPlan raw_steps \<Rightarrow>
          (case refine_chain pl raw_steps of
             ChainRaised e \<Rightarrow> Inl e
           | ChainPlan steps \<Rightarrow>
               if \<not> list_all isinstance_str steps
               then Inl (TypeError ''Planner must return List[str]'')
               else Inr (map str_value steps)))"

section \<open>Browser tabs and the handoff between subtasks\<close>

text \<open>
  A browser context lists the handles of its tabs in the order they were opened; the
  store \<open>tabs\<close> holds each tab's state, so that closing a tab through one reference
  is seen through every other. \<^verbatim>\<open>close()\<close> on a tab that has vanished raises; the tab
  is gone either way, so afterwards its handle reports closed.
\<close>

type_synonym handle = nat

record tab =
  is_closed :: bool
  vanished :: bool

record BrowserContext =
  pages :: "handle list"
  tabs :: "handle \<Rightarrow> tab"

definition open_tabs :: "BrowserContext \<Rightarrow> handle list" where
  "open_tabs ctx = filter (\<lambda>p. \<not> is_closed (tabs ctx p)) (pages ctx)"

definition close :: "handle \<Rightarrow> BrowserContext \<Rightarrow> (exn + unit) \<times> BrowserContext" where
  "close p ctx =
     (let ctx' = ctx\<lparr>tabs := (tabs ctx)(p := (tabs ctx p)\<lparr>is_closed := True\<rparr>)\<rparr> in
      if vanished (tabs ctx p) then (Inl (ExecError ''Target page has been closed''), ctx')
      else (Inr (), ctx'))"

text \<open>The loop over \<^verbatim>\<open>pages[:-1]\<close>: an exception of \<^verbatim>\<open>close()\<close> is caught and passed.\<close>

fun close_each :: "handle list \<Rightarrow> BrowserContext \<Rightarrow> BrowserContext" where
  "close_each [] ctx = ctx"
| "close_each (p # ps) ctx =
     (case close p ctx of
        (Inl e, ctx') \<Rightarrow> close_each ps ctx'
      | (Inr u, ctx') \<Rightarrow> close_each ps ctx')"

definition keep_last_page :: "BrowserContext \<Rightarrow> handle option \<times> BrowserContext" where
  "keep_last_page ctx =
     (let pgs = filter (\<lambda>p. \<not> is_closed (tabs ctx p)) (pages ctx) in
      if pgs = [] then (None, ctx)
      else (Some (last pgs), close_each (butlast pgs) ctx))"

section \<open>The progress digest\<close>

datatype progress_line =
    DoneLine nat string
  | ErrorLine nat string string
  | ComingUpNext nat string

definition check_mark :: string where
  "check_mark = [CHR 0xE2, CHR 0x9C, CHR 0x94, CHR 0xEF, CHR 0xB8, CHR 0x8F]"

definition cross_mark :: string where
  "cross_mark = [CHR 0xE2, CHR 0x9D, CHR 0x8C]"

definition arrows_mark :: string where
  "arrows_mark = [CHR 0xF0, CHR 0x9F, CHR 0x94, CHR 0x84]"

fun render_line :: "progress_line \<Rightarrow> string" where
  "render_line (DoneLine j n) = check_mark @ '' Step '' @ str_nat j @ '': '' @ n"
| "render_line (ErrorLine j n e) =
     cross_mark @ '' Step '' @ str_nat j @ '': '' @ n @ '' (error: '' @ e @ '')''"
| "render_line (ComingUpNext j n) =
     arrows_mark @ '' Step '' @ str_nat j @ '': '' @ n @ '' (COMING UP NEXT)''"

text \<open>Python's truth value of \<^verbatim>\<open>st.error\<close>: None and the empty string are false.\<close>

definition truthy_str :: "string option \<Rightarrow> bool" where
  "truthy_str e = (case e of None \<Rightarrow> False | Some s \<Rightarrow> s \<noteq> [])"

definition progress_entry :: "nat \<Rightarrow> nat \<times> SubtaskStatus \<Rightarrow> progress_line list" where
  "progress_entry idx jst =
     (case jst of (j, st) \<Rightarrow>
        if j < idx then
          (if done st then [DoneLine j (name st)]
           else if truthy_str (error st)
                then [ErrorLine j (name st) (case error st of None \<Rightarrow> [] | Some e \<Rightarrow> e)]
                else [])
        else [ComingUpNext j (name st)])"

definition progress_lines :: "nat \<Rightarrow> SubtaskStatus list \<Rightarrow> progress_line list" where
  "progress_lines idx statuses = concat (map (progress_entry idx) (enumerate 1 statuses))"

definition formatted_progress :: "nat \<Rightarrow> SubtaskStatus list \<Rightarrow> string" where
  "formatted_progress idx statuses = join_lines (map render_line (progress_lines idx statuses))"

fun line_index :: "progress_line \<Rightarrow> nat" where
  "line_index (DoneLine j n) = j"
| "line_index (ErrorLine j n e) = j"
| "line_index (ComingUpNext j n) = j"

fun is_coming_up_next :: "progress_line \<Rightarrow> bool" where
  "is_coming_up_next (ComingUpNext j n) = True"
| "is_coming_up_next l = False"

section \<open>The hierarchical agent\<close>

text \<open>
  An initial action is a one-entry dictionary (\<^verbatim>\<open>{"go_to_url": {"url": ...}}\<close>), kept
  as its key with the arguments; \<^verbatim>\<open>sensitive_data\<close> is a dictionary whose values the
  agent never reads. \<open>playwright\<close> and \<open>context\<close> say whether the attribute of that
  name is set (not None).
\<close>

type_synonym action = "string \<times> (string \<times> string) list"

record HierarchicalAgent =
  planner :: ChecklistPlanner
  show_browser :: bool
  max_actions_per_subtask :: nat
  initial_actions :: "action list option"
  subtask_timeout :: pyfloat
  playwright :: bool
  "context" :: bool
  sensitive_data :: "(string \<times> string) list"

text \<open>\<^verbatim>\<open>HierarchicalAgent.__init__\<close>, with \<^verbatim>\<open>sensitive_data or {}\<close>.\<close>

definition init_agent ::
  "ChecklistPlanner \<Rightarrow> bool \<Rightarrow> nat \<Rightarrow> action list option \<Rightarrow> pyfloat \<Rightarrow>
   (string \<times> string) list option \<Rightarrow> HierarchicalAgent" where
  "init_agent pl sb m ia t sd =
     \<lparr>planner = pl, show_browser = sb, max_actions_per_subtask = m, initial_actions = ia,
      subtask_timeout = t, playwright = False, context = False,
      sensitive_data = (case sd of None \<Rightarrow> [] | Some d \<Rightarrow> d)\<rparr>"

text \<open>
  The keyword arguments \<^verbatim>\<open>BrowserUseAgent\<close> is built with. An optional key that is not
  set is \<open>None\<close>. The references to the LLM and to the browser session are the same
  in every call and are left out; of the system message, a fixed template, the two
  interpolated texts are kept (the task and the progress digest).
\<close>

record params =
  p_task :: string
  p_page :: "handle option"
  p_max_actions_per_step :: nat
  p_validate_output :: bool
  p_initial_actions :: "action list option"
  p_sensitive_data :: "(string \<times> string) list option"
  p_extend_system_message :: "string \<times> string"

definition build_params ::
  "HierarchicalAgent \<Rightarrow> string \<Rightarrow> nat \<Rightarrow> string \<Rightarrow> handle option \<Rightarrow> SubtaskStatus list \<Rightarrow> params"
  where
  "build_params ag task idx subtask page statuses =
     \<lparr>p_task = subtask, p_page = page, p_max_actions_per_step = 1, p_validate_output = True,
      p_initial_actions =
        (if idx = 1 \<and> (case initial_actions ag of None \<Rightarrow> False | Some acts \<Rightarrow> acts \<noteq> [])
         then initial_actions ag else None),
      p_sensitive_data = (if sensitive_data ag \<noteq> [] then Some (sensitive_data ag) else None),
      p_extend_system_message = (task, formatted_progress idx statuses)\<rparr>"

text \<open>
  What \<^verbatim>\<open>asyncio.wait_for(agent.run(...), timeout)\<close> can do: return the history object
  (and leave the browser context in some state); run into the deadline
  (\<open>TimedOut\<close>); pass on an exception of the executor, which is a timeout error of
  the executor's own with some text (\<open>RaisedTimeout\<close>) or another \<^verbatim>\<open>Exception\<close>
  with some text (\<open>Raised\<close>); or be cancelled. The history object either has
  \<^verbatim>\<open>model_dump()\<close> or is a dictionary already.
\<close>

datatype 'step agent_history =
    HistoryList "(string \<times> 'step list) list"
  | PlainDict "(string \<times> 'step list) list"

fun model_dump :: "'step agent_history \<Rightarrow> (string \<times> 'step list) list" where
  "model_dump (HistoryList d) = d"
| "model_dump (PlainDict d) = d"

datatype 'step exec_outcome =
    Completed "'step agent_history" BrowserContext
  | TimedOut
  | RaisedTimeout string
  | Raised string
  | Cancelled

text \<open>
  The world outside the agent: the step executor, which gets the ordinal of the call,
  the arguments, the step budget and the browser context as it stands, and the browser
  context the session starts with.
\<close>

record 'step world =
  executor :: "nat \<Rightarrow> params \<Rightarrow> nat \<Rightarrow> BrowserContext \<Rightarrow> 'step exec_outcome"
  start_context :: BrowserContext

text \<open>
  What the run does, in order. The return of an executor call carries what the call
  gave, the status events carry the status list as it then is.
\<close>

datatype 'step event =
    PlaywrightStart
  | PlanCall
  | SessionStart
  | ExecutorCall nat params "SubtaskStatus list"
  | ExecutorReturn nat "'step exec_outcome"
  | MarkDone nat "SubtaskStatus list"
  | MarkError nat string "SubtaskStatus list"
  | HistoryExtend nat
  | KeepLastPage nat "handle option"
  | SessionKill
  | PlaywrightStop

text \<open>
  \<^verbatim>\<open>statuses[idx - 1]\<close> as Python reads it: a negative index counts from the end, an
  index out of range raises.
\<close>

definition update_status ::
  "nat \<Rightarrow> (SubtaskStatus \<Rightarrow> SubtaskStatus) \<Rightarrow> SubtaskStatus list \<Rightarrow> exn + SubtaskStatus list" where
  "update_status idx f sts =
     (let n = int (length sts); i = int idx - 1; j = (if i < 0 then n + i else i) in
      if 0 \<le> j \<and> j < n then Inr (sts[nat j := f (sts ! nat j)]) else Inl IndexError)"

record 'step loop_state =
  statuses :: "SubtaskStatus list"
  combined_history :: "'step list"
  page :: "handle option"
  browser :: BrowserContext
  events :: "'step event list"

definition timeout_message :: "HierarchicalAgent \<Rightarrow> string" where
  "timeout_message ag = ''timed out after '' @ str_float (subtask_timeout ag) @ ''s''"

text \<open>
  The loop over \<^verbatim>\<open>enumerate(checklist, start=1)\<close>. The result is the exception that
  left the loop, if one did, and the state the loop was left in. The clause
  \<^verbatim>\<open>except asyncio.TimeoutError\<close> comes first and takes every timeout error, that of
  the deadline and one the executor raised alike: it stores the message of the deadline
  and raises the error it caught.
\<close>

fun run_loop ::
  "'step world \<Rightarrow> HierarchicalAgent \<Rightarrow> string \<Rightarrow> nat \<Rightarrow> string list \<Rightarrow> 'step loop_state \<Rightarrow>
   exn option \<times> 'step loop_state" where
  "run_loop w ag task idx [] s = (None, s)"
| "run_loop w ag task idx (subtask # rest) s =
     (let ps = build_params ag task idx subtask (page s) (statuses s);
          s1 = s\<lparr>events := events s @ [ExecutorCall idx ps (statuses s)]\<rparr>;
          r = executor w idx ps (max_actions_per_subtask ag) (browser s);
          s2 = s1\<lparr>events := events s1 @ [ExecutorReturn idx r]\<rparr>
      in case r of
           Completed sub_history ctx \<Rightarrow>
             (case update_status idx mark_done (statuses s) of
                Inl e \<Rightarrow> (Some e, s2)
              | Inr sts \<Rightarrow>
                  (case keep_last_page ctx of (pg, ctx') \<Rightarrow>
                     run_loop w ag task (Suc idx) rest
                       \<lparr>statuses = sts,
                        combined_history =
                          combined_history s @ dict_get (model_dump sub_history) ''history'' [],
                        page = pg, browser = ctx',
                        events = events s2 @
                          [MarkDone idx sts, HistoryExtend idx, KeepLastPage idx pg]\<rparr>))
         | TimedOut \<Rightarrow>
             (case update_status idx (\<lambda>st. mark_error st (timeout_message ag)) (statuses s) of
                Inl e \<Rightarrow> (Some e, s2)
              | Inr sts \<Rightarrow>
                  (Some (TimeoutError []),
                   s2\<lparr>statuses := sts,
                      events := events s2 @ [MarkError idx (timeout_message ag) sts]\<rparr>))
         | RaisedTimeout m \<Rightarrow>
             (case update_status idx (\<lambda>st. mark_error st (timeout_message ag)) (statuses s) of
                Inl e \<Rightarrow> (Some e, s2)
              | Inr sts \<Rightarrow>
                  (Some (TimeoutError m),
                   s2\<lparr>statuses := sts,
                      events := events s2 @ [MarkError idx (timeout_message ag) sts]\<rparr>))
         | Raised e \<Rightarrow>
             (case update_status idx (\<lambda>st. mark_error st e) (statuses s) of
                Inl e' \<Rightarrow> (Some e', s2)
              | Inr sts \<Rightarrow>
                  (Some (ExecError e),
                   s2\<lparr>statuses := sts, events := events s2 @ [MarkError idx e sts]\<rparr>))
         | Cancelled \<Rightarrow>
             (Some CancelledError, s2))"

text \<open>
  The dictionary \<^verbatim>\<open>run\<close> returns, and everything a run leaves behind: what the caller
  gets (the exception raised or the dictionary returned), the agent, the local
  variables \<^verbatim>\<open>statuses\<close> and \<^verbatim>\<open>combined_history\<close> as they were when the run ended,
  and the events in order.
\<close>

record 'step trace =
  history :: "'step list"
  subtask_history :: "SubtaskStatus list"

record 'step run_result =
  returned :: "exn + 'step trace"
  agent_after :: HierarchicalAgent
  final_statuses :: "SubtaskStatus list"
  final_history :: "'step list"
  log :: "'step event list"

text \<open>\<^verbatim>\<open>_init_browser\<close>: starts Playwright and opens a browser context.\<close>

definition init_browser :: "HierarchicalAgent \<Rightarrow> HierarchicalAgent" where
  "init_browser ag = ag\<lparr>playwright := True, context := True\<rparr>"

definition teardown :: "HierarchicalAgent \<Rightarrow> 'step event list" where
  "teardown ag = SessionKill # (if playwright ag then [PlaywrightStop] else [])"

text \<open>
  \<^verbatim>\<open>HierarchicalAgent.run\<close>. Planning and the start of the session come before the
  \<^verbatim>\<open>try\<close>; the \<^verbatim>\<open>finally\<close> block tears the session down however the loop was left;
  the statements after it, reached only when no exception is on its way, tear it down
  again and return. Starting the browser, starting the session, building the executor
  agent and the teardown calls themselves are taken to return.
\<close>

definition run :: "'step world \<Rightarrow> HierarchicalAgent \<Rightarrow> string \<Rightarrow> string \<Rightarrow> 'step run_result" where
  "run w ag task website =
     (let ag1 = (if \<not> context ag then init_browser ag else ag);
          ev0 = (if \<not> context ag then [PlaywrightStart] else []) @ [PlanCall]
      in case plan (planner ag1) task website of
           Inl e \<Rightarrow>
             \<lparr>returned = Inl e, agent_after = ag1, final_statuses = [], final_history = [],
              log = ev0\<rparr>
         | Inr checklist \<Rightarrow>
             (case run_loop w ag1 task 1 checklist
                     \<lparr>statuses = map new_status checklist, combined_history = [],
                      page = None, browser = start_context w,
                      events = ev0 @ [SessionStart]\<rparr> of
                (Some e, s) \<Rightarrow>
                  \<lparr>returned = Inl e, agent_after = ag1, final_statuses = statuses s,
                   final_history = combined_history s, log = events s @ teardown ag1\<rparr>
              | (None, s) \<Rightarrow>
                  \<lparr>returned = Inr \<lparr>history = combined_history s, subtask_history = statuses s\<rparr>,
                   agent_after = ag1, final_statuses = statuses s,
                   final_history = combined_history s,
                   log = events s @ teardown ag1 @ teardown ag1\<rparr>))"

section \<open>The caller\<close>

text \<open>
  \<^verbatim>\<open>run_task\<close> of \<^verbatim>\<open>run_online_mw2.py\<close>, for a hierarchical agent: an \<^verbatim>\<open>Exception\<close>
  of the run is caught and its text kept, and then a result with an empty action history is
  written; a returned dictionary is handed to \<^verbatim>\<open>save_mind2web_trace\<close>; a cancellation
  passes through. \<open>ErrorResult\<close> holds the action history and the final response
  of the result written, \<open>str_exn\<close> is \<^verbatim>\<open>str(e)\<close>.
\<close>

fun str_exn :: "exn \<Rightarrow> string" where
  "str_exn (ChainError m) = m"
| "str_exn (TypeError m) = m"
| "str_exn (TimeoutError m) = m"
| "str_exn (ExecError m) = m"
| "str_exn CancelledError = []"
| "str_exn IndexError = ''list index out of range''"

datatype 'step task_result =
    SavedTrace "'step trace"
  | ErrorResult "string list" string
  | Propagated exn

definition run_task :: "'step world \<Rightarrow> HierarchicalAgent \<Rightarrow> string \<Rightarrow> string \<Rightarrow> 'step task_result" where
  "run_task w ag task website =
     (case returned (run w ag task website) of
        Inl CancelledError \<Rightarrow> Propagated CancelledError
      | Inl e \<Rightarrow> ErrorResult [] (''Exception: '' @ str_exn e)
      | Inr tr \<Rightarrow> SavedTrace tr)"

section \<open>Reading the event log\<close>

fun call_of :: "'step event \<Rightarrow> (nat \<times> params) list" where
  "call_of (ExecutorCall i ps sts) = [(i, ps)]"
| "call_of e = []"

definition calls :: "'step event list \<Rightarrow> (nat \<times> params) list" where
  "calls evs = concat (map call_of evs)"

fun return_of :: "'step event \<Rightarrow> (nat \<times> 'step exec_outcome) list" where
  "return_of (ExecutorReturn i r) = [(i, r)]"
| "return_of e = []"

definition returns :: "'step event list \<Rightarrow> (nat \<times> 'step exec_outcome) list" where
  "returns evs = concat (map return_of evs)"

text \<open>The steps an executor call handed back: \<^verbatim>\<open>sub_dump.get("history", [])\<close>.\<close>

fun returned_steps :: "'step exec_outcome \<Rightarrow> 'step list" where
  "returned_steps (Completed h ctx) = dict_get (model_dump h) ''history'' []"
| "returned_steps r = []"

fun is_completed :: "'step exec_outcome \<Rightarrow> bool" where
  "is_completed (Completed h ctx) = True"
| "is_completed r = False"

datatype phase = Call | Return | Mark | Extend | Handoff

fun phase_of :: "'step event \<Rightarrow> (nat \<times> phase) list" where
  "phase_of (ExecutorCall i ps sts) = [(i, Call)]"
| "phase_of (ExecutorReturn i r) = [(i, Return)]"
| "phase_of (MarkDone i sts) = [(i, Mark)]"
| "phase_of (MarkError i e sts) = [(i, Mark)]"
| "phase_of (HistoryExtend i) = [(i, Extend)]"
| "phase_of (KeepLastPage i pg) = [(i, Handoff)]"
| "phase_of e = []"

definition schedule :: "'step event list \<Rightarrow> (nat \<times> phase) list" where
  "schedule evs = concat (map phase_of evs)"

definition subtask_phases :: "nat \<Rightarrow> (nat \<times> phase) list" where
  "subtask_phases i = [(i, Call), (i, Return), (i, Mark), (i, Extend), (i, Handoff)]"

text \<open>
  The status list where an event shows it, with the subtask and the phase; the page a
  handoff gave; and the page a handoff has to give after a call: the newest tab that is
  not closed in the context the call left, none if there is no such tab.
\<close>

fun snapshot_of :: "'step event \<Rightarrow> (nat \<times> phase \<times> SubtaskStatus list) list" where
  "snapshot_of (ExecutorCall i ps sts) = [(i, Call, sts)]"
| "snapshot_of (MarkDone i sts) = [(i, Mark, sts)]"
| "snapshot_of (MarkError i e sts) = [(i, Mark, sts)]"
| "snapshot_of e = []"

definition snapshots :: "'step event list \<Rightarrow> (nat \<times> phase \<times> SubtaskStatus list) list" where
  "snapshots evs = concat (map snapshot_of evs)"

fun handoff_of :: "'step event \<Rightarrow> (nat \<times> handle option) list" where
  "handoff_of (KeepLastPage i pg) = [(i, pg)]"
| "handoff_of e = []"

definition handoffs :: "'step event list \<Rightarrow> (nat \<times> handle option) list" where
  "handoffs evs = concat (map handoff_of evs)"

fun page_after :: "'step exec_outcome \<Rightarrow> handle option" where
  "page_after (Completed h ctx) =
     (if open_tabs ctx = [] then None else Some (last (open_tabs ctx)))"
| "page_after r = None"

fun is_kill :: "'step event \<Rightarrow> bool" where
  "is_kill SessionKill = True"
| "is_kill e = False"

fun is_stop :: "'step event \<Rightarrow> bool" where
  "is_stop PlaywrightStop = True"
| "is_stop e = False"

definition kills :: "'step event list \<Rightarrow> nat" where
  "kills evs = length (filter is_kill evs)"

definition stops :: "'step event list \<Rightarrow> nat" where
  "stops evs = length (filter is_stop evs)"

text \<open>
  What the status list must satisfy where an event shows it: when subtask \<open>i\<close> is
  handed to the executor, \<open>i - 1\<close> subtasks have reached their outcome; after the
  status of subtask \<open>i\<close> is marked, \<open>i\<close> have.
\<close>

fun event_inv :: "'step event \<Rightarrow> bool" where
  "event_inv (ExecutorCall i ps sts) = (1 \<le> i \<and> status_inv (i - 1) sts)"
| "event_inv (MarkDone i sts) = status_inv i sts"
| "event_inv (MarkError i e sts) = status_inv i sts"
| "event_inv e = True"

section \<open>The state of the loop\<close>

abbreviation done_status :: "string \<Rightarrow> SubtaskStatus" where
  "done_status n \<equiv> mark_done (new_status n)"

text \<open>
  Where the loop stands when it takes up subtask \<open>idx\<close> with the entries \<open>cl\<close>
  still to do: the entries \<open>pre\<close> before it are marked done, the others are as
  they were created.
\<close>

definition loop_inv :: "string list \<Rightarrow> string list \<Rightarrow> nat \<Rightarrow> 'step loop_state \<Rightarrow> bool" where
  "loop_inv pre cl idx s =
     (idx = Suc (length pre) \<and> statuses s = map done_status pre @ map new_status cl)"

text \<open>
  The agent once the browser is there, the events up to the call of the planner, and the
  state the loop starts in.
\<close>

abbreviation started :: "HierarchicalAgent \<Rightarrow> HierarchicalAgent" where
  "started ag \<equiv> (if \<not> context ag then init_browser ag else ag)"

abbreviation prelude :: "HierarchicalAgent \<Rightarrow> 'step event list" where
  "prelude ag \<equiv> (if \<not> context ag then [PlaywrightStart] else []) @ [PlanCall]"

abbreviation loop_start :: "'step world \<Rightarrow> HierarchicalAgent \<Rightarrow> string list \<Rightarrow> 'step loop_state" where
  "loop_start w ag cl \<equiv>
     \<lparr>statuses = map new_status cl, combined_history = [], page = None,
      browser = start_context w, events = prelude ag @ [SessionStart]\<rparr>"


section \<open>Example runs\<close>

text \<open>
  A planner whose chains hand back the given steps, an executor that answers its
  \<open>i\<close>-th call with the \<open>i\<close>-th of the given outcomes, and the agent as
  \<^verbatim>\<open>run_online_mw2.py\<close> builds it, with the default timeout of 60 seconds.
\<close>

definition ex_planner :: "pyval list \<Rightarrow> ChecklistPlanner" where
  "ex_planner steps =
     \<lparr>planner_chain = (\<lambda>t. ChainPlan steps), refine_chain = (\<lambda>raw. ChainPlan raw)\<rparr>"

definition ex_agent :: "pyval list \<Rightarrow> HierarchicalAgent" where
  "ex_agent steps =
     init_agent (ex_planner steps) False 30 (Some [(''go_to_url'', [(''url'', ''site'')])])
       (Float ''60.0'') None"

definition ex_context :: "handle list \<Rightarrow> BrowserContext" where
  "ex_context hs = \<lparr>pages = hs, tabs = (\<lambda>h. \<lparr>is_closed = False, vanished = False\<rparr>)\<rparr>"

definition ex_world :: "string exec_outcome list \<Rightarrow> string world" where
  "ex_world outs =
     \<lparr>executor = (\<lambda>i ps m ctx. if 1 \<le> i \<and> i \<le> length outs then outs ! (i - 1) else Cancelled),
      start_context = ex_context []\<rparr>"

definition ex_checklist :: "pyval list" where
  "ex_checklist = [PyStr ''open search page'', PyStr ''apply filter X'', PyStr ''select first result'']"

definition ex_done :: "string list \<Rightarrow> string exec_outcome" where
  "ex_done steps = Completed (HistoryList [(''history'', steps)]) (ex_context [1, 2])"

section \<open>The handoff keeps the newest tab\<close>

lemma close_snd:
  "snd (close p ctx) = ctx\<lparr>tabs := (tabs ctx)(p := (tabs ctx p)\<lparr>is_closed := True\<rparr>)\<rparr>"
  by (simp add: close_def Let_def)

lemma close_each_step: "close_each (p # ps) ctx = close_each ps (snd (close p ctx))"
  by (cases "close p ctx") (auto split: sum.splits)

lemma close_each_pages: "pages (close_each ps ctx) = pages ctx"
  by (induction ps arbitrary: ctx)
     (simp_all add: close_each_step close_snd del: close_each.simps(2))

lemma close_each_tabs:
  "is_closed (tabs (close_each ps ctx) h) = (h \<in> set ps \<or> is_closed (tabs ctx h))"
  by (induction ps arbitrary: ctx)
     (auto simp: close_each_step close_snd simp del: close_each.simps(2))

lemma keep_only_last:
  assumes d: "distinct xs" and ne: "xs \<noteq> []"
  shows "filter (\<lambda>p. p \<notin> set (butlast xs)) xs = [last xs]"
proof -
  from ne have xs: "xs = butlast xs @ [last xs]" by simp
  with d have "distinct (butlast xs @ [last xs])" by simp
  then have nl: "last xs \<notin> set (butlast xs)" by simp
  have "filter (\<lambda>p. p \<notin> set (butlast xs)) (butlast xs @ [last xs]) = [last xs]"
    using nl by (simp add: filter_empty_conv)
  with xs show ?thesis by simp
qed

lemma open_tabs_after:
  assumes "distinct (pages ctx)" "open_tabs ctx \<noteq> []"
  shows "open_tabs (close_each (butlast (open_tabs ctx)) ctx) = [last (open_tabs ctx)]"
proof -
  have "open_tabs (close_each (butlast (open_tabs ctx)) ctx) =
        filter (\<lambda>p. p \<notin> set (butlast (open_tabs ctx))) (open_tabs ctx)"
    by (auto simp: open_tabs_def close_each_pages close_each_tabs intro: filter_cong)
  also have "\<dots> = [last (open_tabs ctx)]"
    using assms by (intro keep_only_last) (simp_all add: open_tabs_def)
  finally show ?thesis .
qed

text \<open>
  Claim C4. Let the context hold M tabs that are not yet closed (\<open>open_tabs\<close>, in
  the order they were opened). With M = 0 the handoff returns no page and leaves the
  context as it is; the model has no error result, so nothing is raised. With M \<ge> 1 it
  returns the newest of them, and, in a context that lists each tab once, that tab is
  the only one open afterwards. The list of tabs itself is not changed. A
  \<^verbatim>\<open>close()\<close> that raises does not end the loop: whatever the call gave, the loop goes
  on with the next tab.
\<close>

theorem keep_last_page_handoff:
  "(open_tabs ctx = [] \<longrightarrow> keep_last_page ctx = (None, ctx)) \<and>
   (open_tabs ctx \<noteq> [] \<longrightarrow> fst (keep_last_page ctx) = Some (last (open_tabs ctx))) \<and>
   (open_tabs ctx \<noteq> [] \<and> distinct (pages ctx) \<longrightarrow>
      open_tabs (snd (keep_last_page ctx)) = [last (open_tabs ctx)]) \<and>
   pages (snd (keep_last_page ctx)) = pages ctx \<and>
   (\<forall>p ps c. close_each (p # ps) c = close_each ps (snd (close p c)))"
  using open_tabs_after[of ctx]
  by (auto simp: keep_last_page_def Let_def open_tabs_def close_each_pages close_each_step
           simp del: close_each.simps(2))

text \<open>
  Four tabs, the oldest closed already, the second one vanished (its \<^verbatim>\<open>close()\<close>
  raises): the handoff returns tab 3 and only tab 3 is open afterwards. And two tabs, both
  closed: no page, and the context as it was.
\<close>

theorem keep_last_page_handoff_witness:
  "open_tabs \<lparr>pages = [0, 1, 2, 3], tabs = (\<lambda>h. \<lparr>is_closed = (h = 0), vanished = (h = 1)\<rparr>)\<rparr>
     = [1, 2, 3] \<and>
   distinct (pages \<lparr>pages = [0, 1, 2, 3], tabs = (\<lambda>h. \<lparr>is_closed = (h = 0), vanished = (h = 1)\<rparr>)\<rparr>) \<and>
   fst (close 1 \<lparr>pages = [0, 1, 2, 3], tabs = (\<lambda>h. \<lparr>is_closed = (h = 0), vanished = (h = 1)\<rparr>)\<rparr>)
     = Inl (ExecError ''Target page has been closed'') \<and>
   fst (keep_last_page
          \<lparr>pages = [0, 1, 2, 3], tabs = (\<lambda>h. \<lparr>is_closed = (h = 0), vanished = (h = 1)\<rparr>)\<rparr>)
     = Some 3 \<and>
   open_tabs (snd (keep_last_page
          \<lparr>pages = [0, 1, 2, 3], tabs = (\<lambda>h. \<lparr>is_closed = (h = 0), vanished = (h = 1)\<rparr>)\<rparr>))
     = [3] \<and>
   open_tabs \<lparr>pages = [0, 1], tabs = (\<lambda>h. \<lparr>is_closed = True, vanished = False\<rparr>)\<rparr> = [] \<and>
   keep_last_page \<lparr>pages = [0, 1], tabs = (\<lambda>h. \<lparr>is_closed = True, vanished = False\<rparr>)\<rparr> =
     (None, \<lparr>pages = [0, 1], tabs = (\<lambda>h. \<lparr>is_closed = True, vanished = False\<rparr>)\<rparr>)"
proof -
  let ?c = "\<lparr>pages = [0, 1, 2, 3::nat], tabs = (\<lambda>h. \<lparr>is_closed = (h = 0), vanished = (h = 1)\<rparr>)\<rparr>"
  let ?e = "\<lparr>pages = [0, 1::nat], tabs = (\<lambda>h. \<lparr>is_closed = True, vanished = False\<rparr>)\<rparr>"
  have o: "open_tabs ?c = [1, 2, 3]" by (simp add: open_tabs_def)
  have d: "distinct (pages ?c)" by simp
  have c: "fst (close 1 ?c) = Inl (ExecError ''Target page has been closed'')"
    by (simp add: close_def)
  from keep_last_page_handoff[of ?c] o d
  have k: "fst (keep_last_page ?c) = Some 3 \<and> open_tabs (snd (keep_last_page ?c)) = [3]"
    by simp
  have n: "open_tabs ?e = []" by (simp add: open_tabs_def)
  with keep_last_page_handoff[of ?e] have "keep_last_page ?e = (None, ?e)" by blast
  with o d c k n show ?thesis by blast
qed

section \<open>What the progress digest shows\<close>

lemma progress_entry_index:
  "l \<in> set (progress_entry idx (j, st)) \<Longrightarrow> line_index l = j"
  by (auto simp: progress_entry_def split: if_splits)

lemma filter_progress_entry:
  "filter (\<lambda>l. line_index l = j) (progress_entry idx (j', st)) =
     (if j = j' then progress_entry idx (j', st) else [])"
  by (auto simp: filter_empty_conv filter_id_conv dest: progress_entry_index)

lemma filter_digest_enumerate:
  "n \<le> j \<Longrightarrow> j < n + length sts \<Longrightarrow>
   filter (\<lambda>l. line_index l = j) (concat (map (progress_entry idx) (enumerate n sts))) =
     progress_entry idx (j, sts ! (j - n))"
proof (induction sts arbitrary: n)
  case Nil
  then show ?case by simp
next
  case (Cons st sts)
  show ?case
  proof (cases "j = n")
    case True
    have "filter (\<lambda>l. line_index l = j)
            (concat (map (progress_entry idx) (enumerate (Suc n) sts))) = []"
      using True by (auto simp: filter_empty_conv in_set_enumerate_eq dest!: progress_entry_index)
    with True show ?thesis by (simp add: filter_progress_entry)
  next
    case False
    with Cons.prems have "Suc n \<le> j" "j < Suc n + length sts" by auto
    from Cons.IH[OF this] False Cons.prems show ?thesis
      by (simp add: filter_progress_entry Suc_diff_le)
  qed
qed

lemma digest_indices:
  "l \<in> set (progress_lines idx sts) \<Longrightarrow> 1 \<le> line_index l \<and> line_index l \<le> length sts"
  by (auto simp: progress_lines_def in_set_enumerate_eq dest!: progress_entry_index)

lemma digest_sorted_from:
  "sorted (map line_index (concat (map (progress_entry idx) (enumerate n sts))))"
proof (induction sts arbitrary: n)
  case Nil
  then show ?case by simp
next
  case (Cons st sts)
  have a: "\<forall>x\<in>set (progress_entry idx (n, st)). line_index x = n"
    by (auto dest: progress_entry_index)
  have b: "\<forall>y\<in>set (concat (map (progress_entry idx) (enumerate (Suc n) sts))). n \<le> line_index y"
    by (auto simp: in_set_enumerate_eq dest!: progress_entry_index)
  have c: "sorted (map line_index (progress_entry idx (n, st)))"
    using a by (auto simp: sorted_wrt_iff_nth_less)
  show ?case using a b c Cons.IH[of "Suc n"]
    by (auto simp: sorted_append)
qed

lemma enumerate_nth: "enumerate n xs = map (\<lambda>j. (j, xs ! (j - n))) [n..<n + length xs]"
  by (rule nth_equalityI) (simp_all add: nth_enumerate_eq)

lemma render_progress_entry:
  "map render_line (progress_entry idx (j, st)) =
     (if j < idx then
        (if done st then
           [[CHR 0xE2, CHR 0x9C, CHR 0x94, CHR 0xEF, CHR 0xB8, CHR 0x8F] @
            '' Step '' @ str_nat j @ '': '' @ name st]
         else if truthy_str (error st) then
           [[CHR 0xE2, CHR 0x9D, CHR 0x8C] @
            '' Step '' @ str_nat j @ '': '' @ name st @ '' (error: '' @ the (error st) @ '')'']
         else [])
      else
        [[CHR 0xF0, CHR 0x9F, CHR 0x94, CHR 0x84] @
         '' Step '' @ str_nat j @ '': '' @ name st @ '' (COMING UP NEXT)''])"
  by (auto simp: progress_entry_def truthy_str_def check_mark_def cross_mark_def arrows_mark_def
           split: option.splits)

lemma rendered_digest:
  "formatted_progress idx sts =
     join_lines (concat (map (\<lambda>j.
       if j < idx then
         (if done (sts ! (j - 1)) then
            [[CHR 0xE2, CHR 0x9C, CHR 0x94, CHR 0xEF, CHR 0xB8, CHR 0x8F] @
             '' Step '' @ str_nat j @ '': '' @ name (sts ! (j - 1))]
          else if truthy_str (error (sts ! (j - 1))) then
            [[CHR 0xE2, CHR 0x9D, CHR 0x8C] @
             '' Step '' @ str_nat j @ '': '' @ name (sts ! (j - 1)) @
             '' (error: '' @ the (error (sts ! (j - 1))) @ '')'']
          else [])
       else
         [[CHR 0xF0, CHR 0x9F, CHR 0x94, CHR 0x84] @
          '' Step '' @ str_nat j @ '': '' @ name (sts ! (j - 1)) @ '' (COMING UP NEXT)''])
       [1..<Suc (length sts)]))"
proof -
  have "map render_line (progress_lines idx sts) =
      concat (map (\<lambda>j. map render_line (progress_entry idx (j, sts ! (j - 1)))) [1..<Suc (length sts)])"
    by (simp add: progress_lines_def enumerate_nth map_concat comp_def del: upt_Suc)
  then show ?thesis
    unfolding formatted_progress_def by (simp only: render_progress_entry)
qed

text \<open>
  Claim C5, as the code has it. For every status list and index \<open>idx\<close>, the rendered
  digest is the lines of the entries in their order, joined by newlines, where entry
  \<open>j\<close> (counted from 1) gives: if \<open>j < idx\<close>, the line with the check mark
  "Step j: name" when the entry is marked done, else the line with the cross mark
  "Step j: name (error: reason)" when the entry carries a non-empty error, else no line;
  if \<open>j \<ge> idx\<close>, the line with the arrows mark "Step j: name (COMING UP NEXT)", for
  the entry at \<open>idx\<close> and for every later one alike. The same holds of the lines before
  they are rendered: each entry has the lines said, there are no other lines, and they
  stand in the order of the entries.
\<close>

theorem digest_lines:
  "formatted_progress idx sts =
     join_lines (concat (map (\<lambda>j.
       if j < idx then
         (if done (sts ! (j - 1)) then
            [[CHR 0xE2, CHR 0x9C, CHR 0x94, CHR 0xEF, CHR 0xB8, CHR 0x8F] @
             '' Step '' @ str_nat j @ '': '' @ name (sts ! (j - 1))]
          else if truthy_str (error (sts ! (j - 1))) then
            [[CHR 0xE2, CHR 0x9D, CHR 0x8C] @
             '' Step '' @ str_nat j @ '': '' @ name (sts ! (j - 1)) @
             '' (error: '' @ the (error (sts ! (j - 1))) @ '')'']
          else [])
       else
         [[CHR 0xF0, CHR 0x9F, CHR 0x94, CHR 0x84] @
          '' Step '' @ str_nat j @ '': '' @ name (sts ! (j - 1)) @ '' (COMING UP NEXT)''])
       [1..<Suc (length sts)])) \<and>
   (\<forall>j. 1 \<le> j \<and> j \<le> length sts \<longrightarrow>
      filter (\<lambda>l. line_index l = j) (progress_lines idx sts) =
        (let st = sts ! (j - 1) in
         if j < idx then
           (if done st then [DoneLine j (name st)]
            else if truthy_str (error st) then [ErrorLine j (name st) (the (error st))]
            else [])
         else [ComingUpNext j (name st)])) \<and>
   (\<forall>l \<in> set (progress_lines idx sts). 1 \<le> line_index l \<and> line_index l \<le> length sts) \<and>
   sorted (map line_index (progress_lines idx sts))"
proof (intro conjI allI impI ballI)
  show "formatted_progress idx sts =
     join_lines (concat (map (\<lambda>j.
       if j < idx then
         (if done (sts ! (j - 1)) then
            [[CHR 0xE2, CHR 0x9C, CHR 0x94, CHR 0xEF, CHR 0xB8, CHR 0x8F] @
             '' Step '' @ str_nat j @ '': '' @ name (sts ! (j - 1))]
          else if truthy_str (error (sts ! (j - 1))) then
            [[CHR 0xE2, CHR 0x9D, CHR 0x8C] @
             '' Step '' @ str_nat j @ '': '' @ name (sts ! (j - 1)) @
             '' (error: '' @ the (error (sts ! (j - 1))) @ '')'']
          else [])
       else
         [[CHR 0xF0, CHR 0x9F, CHR 0x94, CHR 0x84] @
          '' Step '' @ str_nat j @ '': '' @ name (sts ! (j - 1)) @ '' (COMING UP NEXT)''])
       [1..<Suc (length sts)]))"
    by (rule rendered_digest)
next
  fix j assume j: "1 \<le> j \<and> j \<le> length sts"
  then have "filter (\<lambda>l. line_index l = j) (progress_lines idx sts) =
      progress_entry idx (j, sts ! (j - 1))"
    unfolding progress_lines_def using filter_digest_enumerate[of 1 j sts idx] by simp
  then show "filter (\<lambda>l. line_index l = j) (progress_lines idx sts) =
        (let st = sts ! (j - 1) in
         if j < idx then
           (if done st then [DoneLine j (name st)]
            else if truthy_str (error st) then [ErrorLine j (name st) (the (error st))]
            else [])
         else [ComingUpNext j (name st)])"
    by (auto simp: progress_entry_def Let_def truthy_str_def split: option.splits)
next
  fix l assume "l \<in> set (progress_lines idx sts)"
  then show "1 \<le> line_index l" "line_index l \<le> length sts"
    using digest_indices by blast+
next
  show "sorted (map line_index (progress_lines idx sts))"
    unfolding progress_lines_def by (rule digest_sorted_from)
qed

text \<open>
  Four entries, the first done, the second failed with "boom", the third current: the
  rendered digest says done, failed with the reason, and "coming up next" for the third
  and for the fourth. And three entries, the second current: the third entry has its
  line, the line of the first entry says done.
\<close>

theorem digest_lines_witness:
  "formatted_progress 3
     [mark_done (new_status ''open''), mark_error (new_status ''filter'') ''boom'',
      new_status ''select'', new_status ''close''] =
     [CHR 0xE2, CHR 0x9C, CHR 0x94, CHR 0xEF, CHR 0xB8, CHR 0x8F] @ '' Step 1: open'' @ [CHR 0x0A] @
     [CHR 0xE2, CHR 0x9D, CHR 0x8C] @ '' Step 2: filter (error: boom)'' @ [CHR 0x0A] @
     [CHR 0xF0, CHR 0x9F, CHR 0x94, CHR 0x84] @ '' Step 3: select (COMING UP NEXT)'' @ [CHR 0x0A] @
     [CHR 0xF0, CHR 0x9F, CHR 0x94, CHR 0x84] @ '' Step 4: close (COMING UP NEXT)'' \<and>
   1 \<le> (3::nat) \<and>
   3 \<le> length [mark_done (new_status ''open''), new_status ''filter'', new_status ''select''] \<and>
   filter (\<lambda>l. line_index l = 3)
     (progress_lines 2 [mark_done (new_status ''open''), new_status ''filter'', new_status ''select''])
     = [ComingUpNext 3 ''select''] \<and>
   DoneLine 1 ''open'' \<in> set
     (progress_lines 2 [mark_done (new_status ''open''), new_status ''filter'', new_status ''select'']) \<and>
   line_index (DoneLine 1 ''open'') \<le>
     length [mark_done (new_status ''open''), new_status ''filter'', new_status ''select'']"
proof -
  let ?four = "[mark_done (new_status ''open''), mark_error (new_status ''filter'') ''boom'',
      new_status ''select'', new_status ''close'']"
  let ?sts = "[mark_done (new_status ''open''), new_status ''filter'', new_status ''select'']"
  let ?text = "[CHR 0xE2, CHR 0x9C, CHR 0x94, CHR 0xEF, CHR 0xB8, CHR 0x8F] @ '' Step 1: open'' @ [CHR 0x0A] @
     [CHR 0xE2, CHR 0x9D, CHR 0x8C] @ '' Step 2: filter (error: boom)'' @ [CHR 0x0A] @
     [CHR 0xF0, CHR 0x9F, CHR 0x94, CHR 0x84] @ '' Step 3: select (COMING UP NEXT)'' @ [CHR 0x0A] @
     [CHR 0xF0, CHR 0x9F, CHR 0x94, CHR 0x84] @ '' Step 4: close (COMING UP NEXT)''"
  have ev: "join_lines (concat (map (\<lambda>j.
       if j < 3 then
         (if done (?four ! (j - 1)) then
            [[CHR 0xE2, CHR 0x9C, CHR 0x94, CHR 0xEF, CHR 0xB8, CHR 0x8F] @
             '' Step '' @ str_nat j @ '': '' @ name (?four ! (j - 1))]
          else if truthy_str (error (?four ! (j - 1))) then
            [[CHR 0xE2, CHR 0x9D, CHR 0x8C] @
             '' Step '' @ str_nat j @ '': '' @ name (?four ! (j - 1)) @
             '' (error: '' @ the (error (?four ! (j - 1))) @ '')'']
          else [])
       else
         [[CHR 0xF0, CHR 0x9F, CHR 0x94, CHR 0x84] @
          '' Step '' @ str_nat j @ '': '' @ name (?four ! (j - 1)) @ '' (COMING UP NEXT)''])
       [1..<Suc (length ?four)])) = ?text"
    by code_simp
  from digest_lines[of 3 ?four] ev have r: "formatted_progress 3 ?four = ?text"
    by (simp only:)
  have h: "1 \<le> (3::nat) \<and> 3 \<le> length ?sts" by simp
  from digest_lines[of 2 ?sts] have
    "1 \<le> (3::nat) \<and> 3 \<le> length ?sts \<longrightarrow>
       filter (\<lambda>l. line_index l = 3) (progress_lines 2 ?sts) =
        (let st = ?sts ! (3 - 1) in
         if (3::nat) < 2 then
           (if done st then [DoneLine 3 (name st)]
            else if truthy_str (error st) then [ErrorLine 3 (name st) (the (error st))]
            else [])
         else [ComingUpNext 3 (name st)])"
    by blast
  with h have f: "filter (\<lambda>l. line_index l = 3) (progress_lines 2 ?sts) = [ComingUpNext 3 ''select'']"
    by (simp add: new_status_def mark_done_def)
  have m: "DoneLine 1 ''open'' \<in> set (progress_lines 2 ?sts)"
    by code_simp
  with digest_lines[of 2 ?sts] have "line_index (DoneLine 1 ''open'') \<le> length ?sts"
    by blast
  with r h f m show ?thesis by blast
qed

text \<open>
  The claim as it was stated fails on a list of two pending entries with the first one
  current: the second entry, which is after the current one, is annotated "coming up
  next" as well.
\<close>

theorem digest_later_entry_counterexample:
  "progress_lines 1 [new_status ''open search page'', new_status ''apply filter X''] =
     [ComingUpNext 1 ''open search page'', ComingUpNext 2 ''apply filter X''] \<and>
   formatted_progress 1 [new_status ''open search page'', new_status ''apply filter X''] =
     arrows_mark @ '' Step 1: open search page (COMING UP NEXT)'' @ [CHR 0x0A] @
     arrows_mark @ '' Step 2: apply filter X (COMING UP NEXT)''"
  by code_simp

section \<open>Reading the log of the loop\<close>

lemma calls_append [simp]: "calls (xs @ ys) = calls xs @ calls ys"
  by (simp add: calls_def)
lemma returns_append [simp]: "returns (xs @ ys) = returns xs @ returns ys"
  by (simp add: returns_def)
lemma schedule_append [simp]: "schedule (xs @ ys) = schedule xs @ schedule ys"
  by (simp add: schedule_def)
lemma kills_append [simp]: "kills (xs @ ys) = kills xs + kills ys"
  by (simp add: kills_def)
lemma stops_append [simp]: "stops (xs @ ys) = stops xs + stops ys"
  by (simp add: stops_def)
lemma calls_Nil [simp]: "calls [] = []" by (simp add: calls_def)
lemma returns_Nil [simp]: "returns [] = []" by (simp add: returns_def)
lemma schedule_Nil [simp]: "schedule [] = []" by (simp add: schedule_def)
lemma kills_Nil [simp]: "kills [] = 0" by (simp add: kills_def)
lemma stops_Nil [simp]: "stops [] = 0" by (simp add: stops_def)
lemma calls_Cons [simp]: "calls (e # es) = call_of e @ calls es" by (simp add: calls_def)
lemma returns_Cons [simp]: "returns (e # es) = return_of e @ returns es" by (simp add: returns_def)
lemma schedule_Cons [simp]: "schedule (e # es) = phase_of e @ schedule es" by (simp add: schedule_def)
lemma kills_Cons [simp]: "kills (e # es) = (if is_kill e then 1 else 0) + kills es" by (simp add: kills_def)
lemma stops_Cons [simp]: "stops (e # es) = (if is_stop e then 1 else 0) + stops es" by (simp add: stops_def)

lemma update_status_in_range:
  "length pre = k \<Longrightarrow> update_status (Suc k) f (pre @ x # post) = Inr (pre @ f x # post)"
  by (simp add: update_status_def Let_def nth_append list_update_append)

lemma run_loop_success:
  "loop_inv pre cl idx s \<Longrightarrow> run_loop w ag task idx cl s = (None, s') \<Longrightarrow>
   \<exists>ev. events s' = events s @ ev \<and>
        statuses s' = map done_status (pre @ cl) \<and>
        schedule ev = concat (map subtask_phases [idx..<idx + length cl]) \<and>
        map fst (calls ev) = [idx..<idx + length cl] \<and>
        map (p_task \<circ> snd) (calls ev) = cl \<and>
        map fst (returns ev) = [idx..<idx + length cl] \<and>
        combined_history s' = combined_history s @ concat (map (returned_steps \<circ> snd) (returns ev)) \<and>
        kills ev = 0 \<and> stops ev = 0 \<and> list_all (is_completed \<circ> snd) (returns ev)"
proof (induction cl arbitrary: pre idx s)
  case Nil
  then show ?case by (simp add: loop_inv_def)
next
  case (Cons c cl)
  let ?ps = "build_params ag task idx c (page s) (statuses s)"
  let ?r = "executor w idx ?ps (max_actions_per_subtask ag) (browser s)"
  from Cons.prems(1) have idx: "idx = Suc (length pre)"
    and sts: "statuses s = map done_status pre @ new_status c # map new_status cl"
    by (simp_all add: loop_inv_def)
  have upd: "update_status idx f (statuses s) =
      Inr (map done_status pre @ f (new_status c) # map new_status cl)" for f
    unfolding idx sts by (rule update_status_in_range) simp
  from Cons.prems(2) obtain h ctx where r: "?r = Completed h ctx"
    by (cases ?r) (simp_all add: Let_def upd)
  obtain pg ctx' where k: "keep_last_page ctx = (pg, ctx')" by (cases "keep_last_page ctx")
  let ?s = "\<lparr>statuses = map done_status pre @ mark_done (new_status c) # map new_status cl,
             combined_history = combined_history s @ dict_get (model_dump h) ''history'' [],
             page = pg, browser = ctx',
             events = events s @ [ExecutorCall idx ?ps (statuses s), ExecutorReturn idx ?r,
                MarkDone idx (map done_status pre @ mark_done (new_status c) # map new_status cl),
                HistoryExtend idx, KeepLastPage idx pg]\<rparr>"
  have step: "run_loop w ag task idx (c # cl) s = run_loop w ag task (Suc idx) cl ?s"
    using r k by (simp add: Let_def upd)
  have inv: "loop_inv (pre @ [c]) cl (Suc idx) ?s"
    by (simp add: loop_inv_def idx)
  have "run_loop w ag task (Suc idx) cl ?s = (None, s')" using step Cons.prems(2) by simp
  from Cons.IH[OF inv this] obtain ev where
    ev: "events s' = events ?s @ ev"
        "statuses s' = map done_status ((pre @ [c]) @ cl)"
        "schedule ev = concat (map subtask_phases [Suc idx..<Suc idx + length cl])"
        "map fst (calls ev) = [Suc idx..<Suc idx + length cl]"
        "map (p_task \<circ> snd) (calls ev) = cl"
        "map fst (returns ev) = [Suc idx..<Suc idx + length cl]"
        "combined_history s' = combined_history ?s @ concat (map (returned_steps \<circ> snd) (returns ev))"
        "kills ev = 0" "stops ev = 0" "list_all (is_completed \<circ> snd) (returns ev)"
    by blast
  let ?ev = "[ExecutorCall idx ?ps (statuses s), ExecutorReturn idx ?r,
                MarkDone idx (map done_status pre @ mark_done (new_status c) # map new_status cl),
                HistoryExtend idx, KeepLastPage idx pg] @ ev"
  have a1: "events s' = events s @ ?ev" using ev(1) by simp
  have a2: "statuses s' = map done_status (pre @ c # cl)" using ev(2) by simp
  have a3: "schedule ?ev = concat (map subtask_phases [idx..<idx + length (c # cl)])"
    using ev(3) by (simp del: upt_Suc add: upt_conv_Cons subtask_phases_def)
  have a4: "map fst (calls ?ev) = [idx..<idx + length (c # cl)]"
    using ev(4) by (simp del: upt_Suc add: upt_conv_Cons)
  have a5: "map (p_task \<circ> snd) (calls ?ev) = c # cl"
    using ev(5) by (simp add: build_params_def)
  have a6: "map fst (returns ?ev) = [idx..<idx + length (c # cl)]"
    using ev(6) by (simp del: upt_Suc add: upt_conv_Cons)
  have a7: "combined_history s' = combined_history s @ concat (map (returned_steps \<circ> snd) (returns ?ev))"
    using ev(7) r by simp
  have a8: "kills ?ev = 0 \<and> stops ?ev = 0" using ev(8,9) by simp
  have a9: "list_all (is_completed \<circ> snd) (returns ?ev)" using ev(10) r by simp
  show ?case
    by (intro exI[of _ ?ev] conjI)
       (rule a1 a2 a3 a4 a5 a6 a7 a8[THEN conjunct1] a8[THEN conjunct2] a9)+
qed


lemma run_loop_Cons:
  assumes "loop_inv pre (c # cl) idx s"
  shows "run_loop w ag task idx (c # cl) s =
     (let ps = build_params ag task idx c (page s) (statuses s);
          r = executor w idx ps (max_actions_per_subtask ag) (browser s);
          ev = [ExecutorCall idx ps (statuses s), ExecutorReturn idx r]
      in case r of
           Completed h ctx \<Rightarrow>
             run_loop w ag task (Suc idx) cl
               \<lparr>statuses = map done_status (pre @ [c]) @ map new_status cl,
                combined_history = combined_history s @ returned_steps r,
                page = fst (keep_last_page ctx), browser = snd (keep_last_page ctx),
                events = events s @ ev @
                  [MarkDone idx (map done_status (pre @ [c]) @ map new_status cl),
                   HistoryExtend idx, KeepLastPage idx (fst (keep_last_page ctx))]\<rparr>
         | TimedOut \<Rightarrow>
             (Some (TimeoutError []),
              s\<lparr>statuses := map done_status pre @
                    mark_error (new_status c) (timeout_message ag) # map new_status cl,
                events := events s @ ev @
                  [MarkError idx (timeout_message ag)
                     (map done_status pre @
                      mark_error (new_status c) (timeout_message ag) # map new_status cl)]\<rparr>)
         | RaisedTimeout m \<Rightarrow>
             (Some (TimeoutError m),
              s\<lparr>statuses := map done_status pre @
                    mark_error (new_status c) (timeout_message ag) # map new_status cl,
                events := events s @ ev @
                  [MarkError idx (timeout_message ag)
                     (map done_status pre @
                      mark_error (new_status c) (timeout_message ag) # map new_status cl)]\<rparr>)
         | Raised x \<Rightarrow>
             (Some (ExecError x),
              s\<lparr>statuses := map done_status pre @ mark_error (new_status c) x # map new_status cl,
                events := events s @ ev @
                  [MarkError idx x
                     (map done_status pre @ mark_error (new_status c) x # map new_status cl)]\<rparr>)
         | Cancelled \<Rightarrow> (Some CancelledError, s\<lparr>events := events s @ ev\<rparr>))"
proof -
  from assms have idx: "idx = Suc (length pre)"
    and sts: "statuses s = map done_status pre @ new_status c # map new_status cl"
    by (simp_all add: loop_inv_def)
  have upd: "update_status idx f (statuses s) =
      Inr (map done_status pre @ f (new_status c) # map new_status cl)" for f
    unfolding idx sts by (rule update_status_in_range) simp
  show ?thesis
    by (simp add: Let_def upd split: exec_outcome.splits prod.splits)
qed

section \<open>When the loop is left by an exception\<close>

lemma run_loop_failure:
  "loop_inv pre cl idx s \<Longrightarrow> run_loop w ag task idx cl s = (Some e, s') \<Longrightarrow>
   \<exists>k ev rs r. k < length cl \<and> events s' = events s @ ev \<and>
      map fst (calls ev) = [idx..<idx + Suc k] \<and>
      returns ev = rs @ [(idx + k, r)] \<and> list_all (is_completed \<circ> snd) rs \<and>
      combined_history s' = combined_history s @ concat (map (returned_steps \<circ> snd) rs) \<and>
      kills ev = 0 \<and> stops ev = 0 \<and> \<not> is_completed r \<and>
      (r = TimedOut \<longrightarrow> e = TimeoutError [] \<and>
         statuses s' = map done_status (pre @ take k cl) @
           mark_error (new_status (cl ! k)) (timeout_message ag) # map new_status (drop (Suc k) cl)) \<and>
      (\<forall>m. r = RaisedTimeout m \<longrightarrow> e = TimeoutError m \<and>
         statuses s' = map done_status (pre @ take k cl) @
           mark_error (new_status (cl ! k)) (timeout_message ag) # map new_status (drop (Suc k) cl)) \<and>
      (\<forall>x. r = Raised x \<longrightarrow> e = ExecError x \<and>
         statuses s' = map done_status (pre @ take k cl) @
           mark_error (new_status (cl ! k)) x # map new_status (drop (Suc k) cl)) \<and>
      (r = Cancelled \<longrightarrow> e = CancelledError \<and>
         statuses s' = map done_status (pre @ take k cl) @ map new_status (drop k cl))"
proof (induction cl arbitrary: pre idx s)
  case Nil
  then show ?case by simp
next
  case (Cons c cl)
  let ?ps = "build_params ag task idx c (page s) (statuses s)"
  let ?r = "executor w idx ?ps (max_actions_per_subtask ag) (browser s)"
  let ?ev = "[ExecutorCall idx ?ps (statuses s), ExecutorReturn idx ?r]"
  note step = run_loop_Cons[OF Cons.prems(1), of w ag task]
  show ?case
  proof (cases ?r)
    case (Completed h ctx)
    let ?ev1 = "?ev @ [MarkDone idx (map done_status (pre @ [c]) @ map new_status cl),
                   HistoryExtend idx, KeepLastPage idx (fst (keep_last_page ctx))]"
    let ?s = "\<lparr>statuses = map done_status (pre @ [c]) @ map new_status cl,
                combined_history = combined_history s @ returned_steps ?r,
                page = fst (keep_last_page ctx), browser = snd (keep_last_page ctx),
                events = events s @ ?ev1\<rparr>"
    have rl: "run_loop w ag task (Suc idx) cl ?s = (Some e, s')"
      using step Cons.prems(2) Completed by (simp add: Let_def)
    have inv: "loop_inv (pre @ [c]) cl (Suc idx) ?s"
      using Cons.prems(1) by (simp add: loop_inv_def)
    from Cons.IH[OF inv rl] obtain k ev rs r where
      k: "k < length cl" and
      ev: "events s' = events ?s @ ev" and
      cs: "map fst (calls ev) = [Suc idx..<Suc idx + Suc k]" and
      rs: "returns ev = rs @ [(Suc idx + k, r)]" and
      comp: "list_all (is_completed \<circ> snd) rs" and
      hist: "combined_history s' = combined_history ?s @ concat (map (returned_steps \<circ> snd) rs)" and
      ks: "kills ev = 0" "stops ev = 0" and nc: "\<not> is_completed r" and
      t: "r = TimedOut \<longrightarrow> e = TimeoutError [] \<and>
         statuses s' = map done_status ((pre @ [c]) @ take k cl) @
           mark_error (new_status (cl ! k)) (timeout_message ag) # map new_status (drop (Suc k) cl)" and
      tm: "\<forall>m. r = RaisedTimeout m \<longrightarrow> e = TimeoutError m \<and>
         statuses s' = map done_status ((pre @ [c]) @ take k cl) @
           mark_error (new_status (cl ! k)) (timeout_message ag) # map new_status (drop (Suc k) cl)" and
      x: "\<forall>x. r = Raised x \<longrightarrow> e = ExecError x \<and>
         statuses s' = map done_status ((pre @ [c]) @ take k cl) @
           mark_error (new_status (cl ! k)) x # map new_status (drop (Suc k) cl)" and
      cc: "r = Cancelled \<longrightarrow> e = CancelledError \<and>
         statuses s' = map done_status ((pre @ [c]) @ take k cl) @ map new_status (drop k cl)"
      by blast
    have b1: "Suc k < length (c # cl)" using k by simp
    have b2: "events s' = events s @ (?ev1 @ ev)" using ev by simp
    have b3: "map fst (calls (?ev1 @ ev)) = [idx..<idx + Suc (Suc k)]"
      using cs by (simp del: upt_Suc add: upt_conv_Cons)
    have b4: "returns (?ev1 @ ev) = ((idx, ?r) # rs) @ [(idx + Suc k, r)]"
      using rs by simp
    have b5: "list_all (is_completed \<circ> snd) ((idx, ?r) # rs)"
      using comp Completed by simp
    have b6: "combined_history s' =
        combined_history s @ concat (map (returned_steps \<circ> snd) ((idx, ?r) # rs))"
      using hist by simp
    have b7: "kills (?ev1 @ ev) = 0" "stops (?ev1 @ ev) = 0" using ks by simp_all
    have b8: "r = TimedOut \<longrightarrow> e = TimeoutError [] \<and>
         statuses s' = map done_status (pre @ take (Suc k) (c # cl)) @
           mark_error (new_status ((c # cl) ! Suc k)) (timeout_message ag) #
           map new_status (drop (Suc (Suc k)) (c # cl))"
      using t by simp
    have b8': "\<forall>m. r = RaisedTimeout m \<longrightarrow> e = TimeoutError m \<and>
         statuses s' = map done_status (pre @ take (Suc k) (c # cl)) @
           mark_error (new_status ((c # cl) ! Suc k)) (timeout_message ag) #
           map new_status (drop (Suc (Suc k)) (c # cl))"
      using tm by simp
    have b9: "\<forall>x. r = Raised x \<longrightarrow> e = ExecError x \<and>
         statuses s' = map done_status (pre @ take (Suc k) (c # cl)) @
           mark_error (new_status ((c # cl) ! Suc k)) x #
           map new_status (drop (Suc (Suc k)) (c # cl))"
      using x by simp
    have b10: "r = Cancelled \<longrightarrow> e = CancelledError \<and>
         statuses s' = map done_status (pre @ take (Suc k) (c # cl)) @
           map new_status (drop (Suc k) (c # cl))"
      using cc by simp
    show ?thesis
      by (intro exI[of _ "Suc k"] exI[of _ "?ev1 @ ev"] exI[of _ "(idx, ?r) # rs"] exI[of _ r] conjI)
         (rule b1 b2 b3 b4 b5 b6 b7 nc b8 b8' b9 b10)+
  next
    case TimedOut
    let ?sts = "map done_status pre @
                    mark_error (new_status c) (timeout_message ag) # map new_status cl"
    let ?ev1 = "?ev @ [MarkError idx (timeout_message ag) ?sts]"
    have res: "e = TimeoutError []" "s' = s\<lparr>statuses := ?sts, events := events s @ ?ev1\<rparr>"
      using step Cons.prems(2) TimedOut by (simp_all add: Let_def)
    show ?thesis
      apply (intro exI[of _ 0] exI[of _ ?ev1] exI[of _ "[]"] exI[of _ ?r] conjI)
      using res TimedOut by simp_all
  next
    case (RaisedTimeout m)
    let ?sts = "map done_status pre @
                    mark_error (new_status c) (timeout_message ag) # map new_status cl"
    let ?ev1 = "?ev @ [MarkError idx (timeout_message ag) ?sts]"
    have res: "e = TimeoutError m" "s' = s\<lparr>statuses := ?sts, events := events s @ ?ev1\<rparr>"
      using step Cons.prems(2) RaisedTimeout by (simp_all add: Let_def)
    show ?thesis
      apply (intro exI[of _ 0] exI[of _ ?ev1] exI[of _ "[]"] exI[of _ ?r] conjI)
      using res RaisedTimeout by simp_all
  next
    case (Raised x)
    let ?sts = "map done_status pre @ mark_error (new_status c) x # map new_status cl"
    let ?ev1 = "?ev @ [MarkError idx x ?sts]"
    have res: "e = ExecError x" "s' = s\<lparr>statuses := ?sts, events := events s @ ?ev1\<rparr>"
      using step Cons.prems(2) Raised by (simp_all add: Let_def)
    show ?thesis
      apply (intro exI[of _ 0] exI[of _ ?ev1] exI[of _ "[]"] exI[of _ ?r] conjI)
      using res Raised by simp_all
  next
    case Cancelled
    have res: "e = CancelledError" "s' = s\<lparr>events := events s @ ?ev\<rparr>"
      using step Cons.prems(2) Cancelled by (simp_all add: Let_def)
    have sts: "statuses s = map done_status pre @ map new_status (c # cl)"
      using Cons.prems(1) by (simp add: loop_inv_def)
    show ?thesis
      apply (intro exI[of _ 0] exI[of _ ?ev] exI[of _ "[]"] exI[of _ ?r] conjI)
      using res Cancelled sts by simp_all
  qed
qed

section \<open>The status list along the run\<close>

lemma state_of_simps [simp]:
  "state_of (new_status n) = Pending"
  "state_of (mark_done st) = Done"
  "state_of (mark_error (new_status n) m) = Failed"
  by (simp_all add: state_of_def new_status_def mark_done_def mark_error_def)

lemma state_of_not_running: "state_of st \<noteq> Running"
  by (simp add: state_of_def)

lemma running_count_zero: "running_count sts = 0"
  by (simp add: running_count_def state_of_not_running)

lemma status_inv_loop:
  "status_inv (length pre) (map done_status pre @ map new_status cl)"
  "status_inv (Suc (length pre)) (map done_status pre @ mark_done (new_status c) # map new_status cl)"
  "status_inv (Suc (length pre)) (map done_status pre @ mark_error (new_status c) m # map new_status cl)"
  by (simp_all add: status_inv_def running_count_zero list_all_iff is_terminal_def is_pending_def)

lemma update_status_Suc:
  "update_status (Suc k) f sts = Inr sts' \<Longrightarrow> k < length sts \<and> sts' = sts[k := f (sts ! k)]"
  by (auto simp: update_status_def Let_def split: if_splits)

lemma status_inv_update:
  assumes inv: "status_inv k sts" and upd: "update_status (Suc k) f sts = Inr sts'"
    and f: "\<And>st. is_pending st \<Longrightarrow> is_terminal (f st)"
  shows "status_inv (Suc k) sts'"
proof -
  from update_status_Suc[OF upd] have k: "k < length sts" and sts': "sts' = sts[k := f (sts ! k)]"
    by simp_all
  from inv have t: "list_all is_terminal (take k sts)" and p: "list_all is_pending (drop k sts)"
    by (simp_all add: status_inv_def)
  from k have "drop k sts = sts ! k # drop (Suc k) sts" by (simp add: Cons_nth_drop_Suc)
  with p have pk: "is_pending (sts ! k)" and pr: "list_all is_pending (drop (Suc k) sts)" by simp_all
  have "take (Suc k) sts' = take k sts @ [f (sts ! k)]"
    using k by (simp add: sts' take_Suc_conv_app_nth)
  with t f[OF pk] have "list_all is_terminal (take (Suc k) sts')" by simp
  moreover have "drop (Suc k) sts' = drop (Suc k) sts" by (simp add: sts')
  ultimately show ?thesis using k pr by (simp add: status_inv_def running_count_zero sts')
qed

lemma mark_done_terminal: "is_terminal (mark_done st)"
  by (simp add: is_terminal_def)

lemma mark_error_terminal: "is_pending st \<Longrightarrow> is_terminal (mark_error st e)"
  by (auto simp: is_terminal_def is_pending_def state_of_def mark_error_def split: if_splits)

lemma run_loop_event_inv:
  "loop_inv pre cl idx s \<Longrightarrow> run_loop w ag task idx cl s = (res, s') \<Longrightarrow>
   \<exists>ev. events s' = events s @ ev \<and> list_all event_inv ev \<and>
        (\<exists>k. status_inv k (statuses s'))"
proof (induction cl arbitrary: pre idx s)
  case Nil
  then show ?case using status_inv_loop(1)[of pre "[]"] by (auto simp: loop_inv_def)
next
  case (Cons c cl)
  let ?ps = "build_params ag task idx c (page s) (statuses s)"
  let ?r = "executor w idx ?ps (max_actions_per_subtask ag) (browser s)"
  let ?ev = "[ExecutorCall idx ?ps (statuses s), ExecutorReturn idx ?r]"
  note step = run_loop_Cons[OF Cons.prems(1), of w ag task]
  from Cons.prems(1) have idx: "idx = Suc (length pre)"
    and sts: "statuses s = map done_status pre @ map new_status (c # cl)"
    by (simp_all add: loop_inv_def)
  have call: "list_all event_inv ?ev"
    using status_inv_loop(1)[of pre "c # cl"] by (simp add: idx sts)
  show ?case
  proof (cases ?r)
    case (Completed h ctx)
    let ?ev1 = "?ev @ [MarkDone idx (map done_status (pre @ [c]) @ map new_status cl),
                   HistoryExtend idx, KeepLastPage idx (fst (keep_last_page ctx))]"
    let ?s = "\<lparr>statuses = map done_status (pre @ [c]) @ map new_status cl,
                combined_history = combined_history s @ returned_steps ?r,
                page = fst (keep_last_page ctx), browser = snd (keep_last_page ctx),
                events = events s @ ?ev1\<rparr>"
    have rl: "run_loop w ag task (Suc idx) cl ?s = (res, s')"
      using step Cons.prems(2) Completed by (simp add: Let_def)
    have inv: "loop_inv (pre @ [c]) cl (Suc idx) ?s"
      using Cons.prems(1) by (simp add: loop_inv_def)
    from Cons.IH[OF inv rl] obtain ev where
      ev: "events s' = events ?s @ ev" "list_all event_inv ev" "\<exists>k. status_inv k (statuses s')"
      by blast
    have "list_all event_inv ?ev1"
      using call status_inv_loop(2)[of pre c cl] by (simp add: idx)
    with ev have "events s' = events s @ (?ev1 @ ev) \<and> list_all event_inv (?ev1 @ ev)"
      by simp
    with ev(3) show ?thesis by blast
  next
    case TimedOut
    let ?sts = "map done_status pre @
                    mark_error (new_status c) (timeout_message ag) # map new_status cl"
    let ?ev1 = "?ev @ [MarkError idx (timeout_message ag) ?sts]"
    have res: "s' = s\<lparr>statuses := ?sts, events := events s @ ?ev1\<rparr>"
      using step Cons.prems(2) TimedOut by (simp_all add: Let_def)
    have "list_all event_inv ?ev1" "status_inv idx (statuses s')"
      using call status_inv_loop(3)[of pre c "timeout_message ag" cl] by (simp_all add: idx res)
    then show ?thesis using res by (intro exI[of _ ?ev1]) auto
  next
    case (RaisedTimeout m)
    let ?sts = "map done_status pre @
                    mark_error (new_status c) (timeout_message ag) # map new_status cl"
    let ?ev1 = "?ev @ [MarkError idx (timeout_message ag) ?sts]"
    have res: "s' = s\<lparr>statuses := ?sts, events := events s @ ?ev1\<rparr>"
      using step Cons.prems(2) RaisedTimeout by (simp_all add: Let_def)
    have "list_all event_inv ?ev1" "status_inv idx (statuses s')"
      using call status_inv_loop(3)[of pre c "timeout_message ag" cl] by (simp_all add: idx res)
    then show ?thesis using res by (intro exI[of _ ?ev1]) auto
  next
    case (Raised x)
    let ?sts = "map done_status pre @ mark_error (new_status c) x # map new_status cl"
    let ?ev1 = "?ev @ [MarkError idx x ?sts]"
    have res: "s' = s\<lparr>statuses := ?sts, events := events s @ ?ev1\<rparr>"
      using step Cons.prems(2) Raised by (simp_all add: Let_def)
    have "list_all event_inv ?ev1" "status_inv idx (statuses s')"
      using call status_inv_loop(3)[of pre c x cl] by (simp_all add: idx res)
    then show ?thesis using res by (intro exI[of _ ?ev1]) auto
  next
    case Cancelled
    have res: "s' = s\<lparr>events := events s @ ?ev\<rparr>"
      using step Cons.prems(2) Cancelled by (simp_all add: Let_def)
    have "status_inv (length pre) (statuses s')"
      using status_inv_loop(1)[of pre "c # cl"] by (simp add: res sts)
    then show ?thesis using res call by (intro exI[of _ ?ev]) auto
  qed
qed

section \<open>The arguments of the executor calls\<close>

lemma run_loop_initial_actions:
  "loop_inv pre cl idx s \<Longrightarrow> run_loop w ag task idx cl s = (res, s') \<Longrightarrow>
   \<exists>ev. events s' = events s @ ev \<and>
     (\<forall>c \<in> set (calls ev). idx \<le> fst c \<and>
        p_initial_actions (snd c) = p_initial_actions (build_params ag [] (fst c) [] None []))"
proof (induction cl arbitrary: pre idx s)
  case Nil
  then show ?case by simp
next
  case (Cons c cl)
  let ?ps = "build_params ag task idx c (page s) (statuses s)"
  let ?r = "executor w idx ?ps (max_actions_per_subtask ag) (browser s)"
  let ?ev = "[ExecutorCall idx ?ps (statuses s), ExecutorReturn idx ?r]"
  let ?P = "\<lambda>n c. n \<le> fst c \<and>
        p_initial_actions (snd c) = p_initial_actions (build_params ag [] (fst c) [] None [])"
  note step = run_loop_Cons[OF Cons.prems(1), of w ag task]
  have call: "\<forall>c \<in> set (calls ?ev). ?P idx c"
    by (simp add: build_params_def)
  show ?case
  proof (cases ?r)
    case (Completed h ctx)
    let ?ev1 = "?ev @ [MarkDone idx (map done_status (pre @ [c]) @ map new_status cl),
                   HistoryExtend idx, KeepLastPage idx (fst (keep_last_page ctx))]"
    let ?s = "\<lparr>statuses = map done_status (pre @ [c]) @ map new_status cl,
                combined_history = combined_history s @ returned_steps ?r,
                page = fst (keep_last_page ctx), browser = snd (keep_last_page ctx),
                events = events s @ ?ev1\<rparr>"
    have rl: "run_loop w ag task (Suc idx) cl ?s = (res, s')"
      using step Cons.prems(2) Completed by (simp add: Let_def)
    have inv: "loop_inv (pre @ [c]) cl (Suc idx) ?s"
      using Cons.prems(1) by (simp add: loop_inv_def)
    from Cons.IH[OF inv rl] obtain ev where
      ev: "events s' = events ?s @ ev" "\<forall>c \<in> set (calls ev). ?P (Suc idx) c"
      by blast
    have "calls (?ev1 @ ev) = calls ?ev @ calls ev" by simp
    with call ev(2) have "\<forall>c \<in> set (calls (?ev1 @ ev)). ?P idx c"
      by (metis Suc_leD Un_iff set_append)
    moreover have "events s' = events s @ (?ev1 @ ev)" using ev(1) by simp
    ultimately show ?thesis by blast
  next
    case TimedOut
    let ?ev1 = "?ev @ [MarkError idx (timeout_message ag) (map done_status pre @
                    mark_error (new_status c) (timeout_message ag) # map new_status cl)]"
    have "events s' = events s @ ?ev1"
      using step Cons.prems(2) TimedOut by (auto simp: Let_def)
    moreover have "calls ?ev1 = calls ?ev" by simp
    ultimately show ?thesis using call by metis
  next
    case (RaisedTimeout m)
    let ?ev1 = "?ev @ [MarkError idx (timeout_message ag) (map done_status pre @
                    mark_error (new_status c) (timeout_message ag) # map new_status cl)]"
    have "events s' = events s @ ?ev1"
      using step Cons.prems(2) RaisedTimeout by (auto simp: Let_def)
    moreover have "calls ?ev1 = calls ?ev" by simp
    ultimately show ?thesis using call by metis
  next
    case (Raised x)
    let ?ev1 = "?ev @ [MarkError idx x (map done_status pre @
                    mark_error (new_status c) x # map new_status cl)]"
    have "events s' = events s @ ?ev1"
      using step Cons.prems(2) Raised by (auto simp: Let_def)
    moreover have "calls ?ev1 = calls ?ev" by simp
    ultimately show ?thesis using call by metis
  next
    case Cancelled
    have "events s' = events s @ ?ev"
      using step Cons.prems(2) Cancelled by (auto simp: Let_def)
    then show ?thesis using call by metis
  qed
qed

section \<open>What a run that completes shows\<close>

lemma snapshots_append [simp]: "snapshots (xs @ ys) = snapshots xs @ snapshots ys"
  by (simp add: snapshots_def)
lemma handoffs_append [simp]: "handoffs (xs @ ys) = handoffs xs @ handoffs ys"
  by (simp add: handoffs_def)
lemma snapshots_Nil [simp]: "snapshots [] = []" by (simp add: snapshots_def)
lemma handoffs_Nil [simp]: "handoffs [] = []" by (simp add: handoffs_def)
lemma snapshots_Cons [simp]: "snapshots (e # es) = snapshot_of e @ snapshots es"
  by (simp add: snapshots_def)
lemma handoffs_Cons [simp]: "handoffs (e # es) = handoff_of e @ handoffs es"
  by (simp add: handoffs_def)

lemma keep_last_page_fst:
  "fst (keep_last_page ctx) = (if open_tabs ctx = [] then None else Some (last (open_tabs ctx)))"
  by (simp add: keep_last_page_def open_tabs_def Let_def)

lemma done_flags:
  "map done (map done_status pre @ map new_status cl) =
     replicate (length pre) True @ replicate (length cl) False"
  by (simp add: mark_done_def new_status_def comp_def map_replicate_const)

lemma run_loop_success_view:
  "loop_inv pre cl idx s \<Longrightarrow> run_loop w ag task idx cl s = (None, s') \<Longrightarrow>
   \<exists>ev. events s' = events s @ ev \<and>
     map (\<lambda>(i, ph, sts). (i, ph, map done sts)) (snapshots ev) =
       concat (map (\<lambda>i.
         [(i, Call, replicate (i - 1) True @ replicate (length pre + length cl - (i - 1)) False),
          (i, Mark, replicate i True @ replicate (length pre + length cl - i) False)])
         [idx..<idx + length cl]) \<and>
     map snd (handoffs ev) = map (page_after \<circ> snd) (returns ev) \<and>
     map (p_page \<circ> snd) (calls ev) =
       take (length cl) (page s # map (page_after \<circ> snd) (returns ev))"
proof (induction cl arbitrary: pre idx s)
  case Nil
  then show ?case by simp
next
  case (Cons c cl)
  let ?ps = "build_params ag task idx c (page s) (statuses s)"
  let ?r = "executor w idx ?ps (max_actions_per_subtask ag) (browser s)"
  let ?ev = "[ExecutorCall idx ?ps (statuses s), ExecutorReturn idx ?r]"
  note step = run_loop_Cons[OF Cons.prems(1), of w ag task]
  from Cons.prems(1) have idx: "idx = Suc (length pre)"
    and sts: "statuses s = map done_status pre @ map new_status (c # cl)"
    by (simp_all add: loop_inv_def)
  from Cons.prems(2) step obtain h ctx where r: "?r = Completed h ctx"
    by (cases ?r) (simp_all add: Let_def)
  let ?ev1 = "?ev @ [MarkDone idx (map done_status (pre @ [c]) @ map new_status cl),
                 HistoryExtend idx, KeepLastPage idx (fst (keep_last_page ctx))]"
  let ?s = "\<lparr>statuses = map done_status (pre @ [c]) @ map new_status cl,
              combined_history = combined_history s @ returned_steps ?r,
              page = fst (keep_last_page ctx), browser = snd (keep_last_page ctx),
              events = events s @ ?ev1\<rparr>"
  have rl: "run_loop w ag task (Suc idx) cl ?s = (None, s')"
    using step Cons.prems(2) r by (simp add: Let_def)
  have inv: "loop_inv (pre @ [c]) cl (Suc idx) ?s"
    using Cons.prems(1) by (simp add: loop_inv_def)
  from Cons.IH[OF inv rl] obtain ev where
    ev: "events s' = events ?s @ ev"
      "map (\<lambda>(i, ph, sts). (i, ph, map done sts)) (snapshots ev) =
       concat (map (\<lambda>i.
         [(i, Call, replicate (i - 1) True @ replicate (length (pre @ [c]) + length cl - (i - 1)) False),
          (i, Mark, replicate i True @ replicate (length (pre @ [c]) + length cl - i) False)])
         [Suc idx..<Suc idx + length cl])"
      "map snd (handoffs ev) = map (page_after \<circ> snd) (returns ev)"
      "map (p_page \<circ> snd) (calls ev) =
       take (length cl) (page ?s # map (page_after \<circ> snd) (returns ev))"
    by blast
  have pa: "page_after ?r = fst (keep_last_page ctx)"
    by (simp add: r keep_last_page_fst)
  have b1: "events s' = events s @ (?ev1 @ ev)" using ev(1) by simp
  have flags: "map done (statuses s) =
        replicate (idx - 1) True @ replicate (length pre + length (c # cl) - (idx - 1)) False"
      "map done (map done_status (pre @ [c]) @ map new_status cl) =
        replicate idx True @ replicate (length pre + length (c # cl) - idx) False"
    using done_flags[of pre "c # cl"] done_flags[of "pre @ [c]" cl] by (simp_all add: sts idx)
  have b2: "map (\<lambda>(i, ph, sts). (i, ph, map done sts)) (snapshots (?ev1 @ ev)) =
       concat (map (\<lambda>i.
         [(i, Call, replicate (i - 1) True @ replicate (length pre + length (c # cl) - (i - 1)) False),
          (i, Mark, replicate i True @ replicate (length pre + length (c # cl) - i) False)])
         [idx..<idx + length (c # cl)])"
    using ev(2) flags by (simp del: upt_Suc replicate.simps add: upt_conv_Cons)
  have b3: "map snd (handoffs (?ev1 @ ev)) = map (page_after \<circ> snd) (returns (?ev1 @ ev))"
    using ev(3) pa by simp
  have b4: "map (p_page \<circ> snd) (calls (?ev1 @ ev)) =
       take (length (c # cl)) (page s # map (page_after \<circ> snd) (returns (?ev1 @ ev)))"
    using ev(4) pa by (simp add: build_params_def)
  show ?case
    by (intro exI[of _ "?ev1 @ ev"] conjI) (rule b1 b2 b3 b4)+
qed

section \<open>The run as a whole\<close>

lemma planner_started [simp]: "planner (started ag) = planner ag"
  by (simp add: init_browser_def)

lemma run_plan_failed:
  "plan (planner ag) task website = Inl e \<Longrightarrow>
   run w ag task website =
     \<lparr>returned = Inl e, agent_after = started ag, final_statuses = [], final_history = [],
      log = prelude ag\<rparr>"
  by (simp add: run_def Let_def)

lemma run_failed:
  "plan (planner ag) task website = Inr cl \<Longrightarrow>
   run_loop w (started ag) task 1 cl (loop_start w ag cl) = (Some e, s) \<Longrightarrow>
   run w ag task website =
     \<lparr>returned = Inl e, agent_after = started ag, final_statuses = statuses s,
      final_history = combined_history s, log = events s @ teardown (started ag)\<rparr>"
  by (simp add: run_def Let_def)

lemma run_succeeded:
  "plan (planner ag) task website = Inr cl \<Longrightarrow>
   run_loop w (started ag) task 1 cl (loop_start w ag cl) = (None, s) \<Longrightarrow>
   run w ag task website =
     \<lparr>returned = Inr \<lparr>history = combined_history s, subtask_history = statuses s\<rparr>,
      agent_after = started ag, final_statuses = statuses s,
      final_history = combined_history s,
      log = events s @ teardown (started ag) @ teardown (started ag)\<rparr>"
  by (simp add: run_def Let_def)

lemma loop_start_inv: "loop_inv [] cl 1 (loop_start w ag cl)"
  by (simp add: loop_inv_def)

lemma teardown_reads [simp]:
  "calls (teardown ag) = []" "returns (teardown ag) = []" "schedule (teardown ag) = []"
  "kills (teardown ag) = 1" "list_all event_inv (teardown ag)"
  "stops (teardown ag) = (if playwright ag then 1 else 0)"
  by (simp_all add: teardown_def)

lemma teardown_views [simp]:
  "snapshots (teardown ag) = []" "handoffs (teardown ag) = []"
  by (simp_all add: teardown_def)

lemma prelude_views [simp]:
  "snapshots (prelude ag) = []" "handoffs (prelude ag) = []"
  by simp_all

lemma prelude_reads [simp]:
  "calls (prelude ag) = []" "returns (prelude ag) = []" "schedule (prelude ag) = []"
  "kills (prelude ag) = 0" "stops (prelude ag) = 0" "list_all event_inv (prelude ag)"
  by simp_all

text \<open>The three ways a run can end.\<close>

lemma run_cases:
  obtains (plan_failed) e where "plan (planner ag) task website = Inl e"
      "run w ag task website =
         \<lparr>returned = Inl e, agent_after = started ag, final_statuses = [], final_history = [],
          log = prelude ag\<rparr>"
  | (failed) cl e s where "plan (planner ag) task website = Inr cl"
      "run_loop w (started ag) task 1 cl (loop_start w ag cl) = (Some e, s)"
      "run w ag task website =
         \<lparr>returned = Inl e, agent_after = started ag, final_statuses = statuses s,
          final_history = combined_history s, log = events s @ teardown (started ag)\<rparr>"
  | (succeeded) cl s where "plan (planner ag) task website = Inr cl"
      "run_loop w (started ag) task 1 cl (loop_start w ag cl) = (None, s)"
      "run w ag task website =
         \<lparr>returned = Inr \<lparr>history = combined_history s, subtask_history = statuses s\<rparr>,
          agent_after = started ag, final_statuses = statuses s,
          final_history = combined_history s,
          log = events s @ teardown (started ag) @ teardown (started ag)\<rparr>"
proof (cases "plan (planner ag) task website")
  case (Inl e)
  then show ?thesis using plan_failed run_plan_failed by blast
next
  case (Inr cl)
  obtain res s where rl: "run_loop w (started ag) task 1 cl (loop_start w ag cl) = (res, s)"
    by (cases "run_loop w (started ag) task 1 cl (loop_start w ag cl)")
  show ?thesis
  proof (cases res)
    case None
    with Inr rl show ?thesis using succeeded run_succeeded by blast
  next
    case (Some e)
    with Inr rl show ?thesis using failed run_failed by blast
  qed
qed


section \<open>The order of a successful run\<close>

text \<open>
  Claim C7. When the run returns a trace over a checklist of length N, the executor was
  called exactly N times, for the subtasks 1 to N in this order, the call for subtask
  \<open>i\<close> with the \<open>i\<close>-th entry of the checklist as its task; and the run went
  through the subtasks one after the other, each as: the call, its return, the status
  marked, the history extended, the handoff. When subtask \<open>i\<close> is called, the
  statuses of the subtasks before \<open>i\<close> are done and no other is; when its status is
  marked, it is done too. The page each handoff gives is the newest tab not closed in
  the context the call has just left; the call for subtask 1 is given no page, and the
  call for subtask \<open>i + 1\<close> the page the handoff of subtask \<open>i\<close> gave.
\<close>

theorem run_success_order:
  assumes ok: "returned (run w ag task website) = Inr tr"
  shows "\<exists>checklist. plan (planner ag) task website = Inr checklist \<and>
     map fst (calls (log (run w ag task website))) = [1..<Suc (length checklist)] \<and>
     map (p_task \<circ> snd) (calls (log (run w ag task website))) = checklist \<and>
     schedule (log (run w ag task website)) =
       concat (map subtask_phases [1..<Suc (length checklist)]) \<and>
     map (\<lambda>(i, ph, sts). (i, ph, map done sts)) (snapshots (log (run w ag task website))) =
       concat (map (\<lambda>i.
         [(i, Call, replicate (i - 1) True @ replicate (length checklist - (i - 1)) False),
          (i, Mark, replicate i True @ replicate (length checklist - i) False)])
         [1..<Suc (length checklist)]) \<and>
     map snd (handoffs (log (run w ag task website))) =
       map (page_after \<circ> snd) (returns (log (run w ag task website))) \<and>
     map (p_page \<circ> snd) (calls (log (run w ag task website))) =
       take (length checklist)
         (None # map (page_after \<circ> snd) (returns (log (run w ag task website))))"
proof (cases rule: run_cases[of ag task website w])
  case (plan_failed e)
  then show ?thesis using ok by simp
next
  case (failed cl e s)
  then show ?thesis using ok by simp
next
  case (succeeded cl s)
  from run_loop_success[OF loop_start_inv succeeded(2)] obtain ev where
    ev: "events s = events (loop_start w ag cl) @ ev"
        "schedule ev = concat (map subtask_phases [1..<1 + length cl])"
        "map fst (calls ev) = [1..<1 + length cl]"
        "map (p_task \<circ> snd) (calls ev) = cl"
    by blast
  from run_loop_success_view[OF loop_start_inv succeeded(2)] ev(1)
  have ev': "map (\<lambda>(i, ph, sts). (i, ph, map done sts)) (snapshots ev) =
           concat (map (\<lambda>i.
             [(i, Call, replicate (i - 1) True @ replicate (length cl - (i - 1)) False),
              (i, Mark, replicate i True @ replicate (length cl - i) False)])
             [1..<Suc (length cl)]) \<and>
        map snd (handoffs ev) = map (page_after \<circ> snd) (returns ev) \<and>
        map (p_page \<circ> snd) (calls ev) =
           take (length cl) (None # map (page_after \<circ> snd) (returns ev))"
    by (clarsimp simp del: upt_Suc)
  have l: "log (run w ag task website) =
      prelude ag @ [SessionStart] @ ev @ teardown (started ag) @ teardown (started ag)"
    using succeeded(3) ev(1) by simp
  have c1: "map fst (calls (log (run w ag task website))) = [1..<Suc (length cl)]"
    unfolding l using ev(3) by simp
  have c2: "map (p_task \<circ> snd) (calls (log (run w ag task website))) = cl"
    unfolding l using ev(4) by simp
  have c3: "schedule (log (run w ag task website)) =
       concat (map subtask_phases [1..<Suc (length cl)])"
    unfolding l using ev(2) by simp
  have c4: "map (\<lambda>(i, ph, sts). (i, ph, map done sts)) (snapshots (log (run w ag task website))) =
       concat (map (\<lambda>i.
         [(i, Call, replicate (i - 1) True @ replicate (length cl - (i - 1)) False),
          (i, Mark, replicate i True @ replicate (length cl - i) False)])
         [1..<Suc (length cl)])"
    unfolding l using ev' by (simp split: if_splits del: upt_Suc)
  have c5: "map snd (handoffs (log (run w ag task website))) =
       map (page_after \<circ> snd) (returns (log (run w ag task website)))"
    unfolding l using ev' by (simp split: if_splits)
  have c6: "map (p_page \<circ> snd) (calls (log (run w ag task website))) =
       take (length cl) (None # map (page_after \<circ> snd) (returns (log (run w ag task website))))"
    unfolding l using ev' by (simp split: if_splits)
  show ?thesis
    by (intro exI[of _ cl] conjI) (rule succeeded(1) c1 c2 c3 c4 c5 c6)+
qed

text \<open>
  Three subtasks that all complete, each leaving the tabs 1 and 2 open: three calls, with
  the entries of the checklist as their tasks, and the five phases of subtask 1, then of
  2, then of 3; the first call gets no page, the others tab 2; and the statuses done at
  each call and mark are those of the subtasks up to there.
\<close>

theorem run_success_order_witness:
  "returned (run (ex_world [ex_done [''a'', ''b''], ex_done [], ex_done [''c'']])
      (ex_agent ex_checklist) ''task'' ''site'') =
     Inr \<lparr>history = [''a'', ''b'', ''c''],
          subtask_history = map done_status
            [''open search page'', ''apply filter X'', ''select first result'']\<rparr> \<and>
   map (p_task \<circ> snd) (calls (log (run (ex_world [ex_done [''a'', ''b''], ex_done [], ex_done [''c'']])
      (ex_agent ex_checklist) ''task'' ''site''))) =
     [''open search page'', ''apply filter X'', ''select first result''] \<and>
   schedule (log (run (ex_world [ex_done [''a'', ''b''], ex_done [], ex_done [''c'']])
      (ex_agent ex_checklist) ''task'' ''site'')) =
     subtask_phases 1 @ subtask_phases 2 @ subtask_phases 3 \<and>
   map (p_page \<circ> snd) (calls (log (run (ex_world [ex_done [''a'', ''b''], ex_done [], ex_done [''c'']])
      (ex_agent ex_checklist) ''task'' ''site''))) = [None, Some 2, Some 2] \<and>
   map snd (handoffs (log (run (ex_world [ex_done [''a'', ''b''], ex_done [], ex_done [''c'']])
      (ex_agent ex_checklist) ''task'' ''site''))) = [Some 2, Some 2, Some 2] \<and>
   map (\<lambda>(i, ph, sts). (i, ph, map done sts))
     (snapshots (log (run (ex_world [ex_done [''a'', ''b''], ex_done [], ex_done [''c'']])
        (ex_agent ex_checklist) ''task'' ''site''))) =
     [(1, Call, [False, False, False]), (1, Mark, [True, False, False]),
      (2, Call, [True, False, False]), (2, Mark, [True, True, False]),
      (3, Call, [True, True, False]), (3, Mark, [True, True, True])]"
proof -
  let ?r = "run (ex_world [ex_done [''a'', ''b''], ex_done [], ex_done [''c'']])
      (ex_agent ex_checklist) ''task'' ''site''"
  let ?cl = "[''open search page'', ''apply filter X'', ''select first result'']"
  have ok: "returned ?r = Inr \<lparr>history = [''a'', ''b'', ''c''], subtask_history = map done_status ?cl\<rparr>"
    by code_simp
  have pl: "plan (planner (ex_agent ex_checklist)) ''task'' ''site'' = Inr ?cl"
    by code_simp
  have pa: "map (page_after \<circ> snd) (returns (log ?r)) = [Some 2, Some 2, Some 2]"
    by code_simp
  from run_success_order[OF ok] pl
  have t: "map (p_task \<circ> snd) (calls (log ?r)) = ?cl"
    and sc: "schedule (log ?r) = concat (map subtask_phases [1..<Suc (length ?cl)])"
    and sn: "map (\<lambda>(i, ph, sts). (i, ph, map done sts)) (snapshots (log ?r)) =
       concat (map (\<lambda>i.
         [(i, Call, replicate (i - 1) True @ replicate (length ?cl - (i - 1)) False),
          (i, Mark, replicate i True @ replicate (length ?cl - i) False)])
         [1..<Suc (length ?cl)])"
    and ho: "map snd (handoffs (log ?r)) = map (page_after \<circ> snd) (returns (log ?r))"
    and pg: "map (p_page \<circ> snd) (calls (log ?r)) =
       take (length ?cl) (None # map (page_after \<circ> snd) (returns (log ?r)))"
    by auto
  have e1: "concat (map subtask_phases [1..<Suc (length ?cl)]) =
      subtask_phases 1 @ subtask_phases 2 @ subtask_phases 3"
    by code_simp
  have e2: "concat (map (\<lambda>i.
         [(i, Call, replicate (i - 1) True @ replicate (length ?cl - (i - 1)) False),
          (i, Mark, replicate i True @ replicate (length ?cl - i) False)])
         [1..<Suc (length ?cl)]) =
     [(1, Call, [False, False, False]), (1, Mark, [True, False, False]),
      (2, Call, [True, False, False]), (2, Mark, [True, True, False]),
      (3, Call, [True, True, False]), (3, Mark, [True, True, True])]"
    by code_simp
  from pg pa have pg': "map (p_page \<circ> snd) (calls (log ?r)) = [None, Some 2, Some 2]"
    by simp
  from ok t sc e1 sn e2 ho pa pg' show ?thesis by (simp only:) 
qed


text \<open>
  Claim C6. When the run returns a trace, its steps are the concatenation, in the
  order of the executor calls, of the steps each call handed back
  (\<^verbatim>\<open>sub_dump.get("history", [])\<close>); every call has completed, and the calls are
  those for the subtasks 1 to N, once each and in this order.
\<close>

theorem trace_is_concatenation:
  assumes ok: "returned (run w ag task website) = Inr tr"
  shows "history tr =
     concat (map (returned_steps \<circ> snd) (returns (log (run w ag task website)))) \<and>
   list_all (is_completed \<circ> snd) (returns (log (run w ag task website))) \<and>
   (\<exists>checklist. plan (planner ag) task website = Inr checklist \<and>
      map fst (returns (log (run w ag task website))) = [1..<Suc (length checklist)])"
proof (cases rule: run_cases[of ag task website w])
  case (plan_failed e)
  then show ?thesis using ok by simp
next
  case (failed cl e s)
  then show ?thesis using ok by simp
next
  case (succeeded cl s)
  from run_loop_success[OF loop_start_inv succeeded(2)] obtain ev where
    ev: "events s = events (loop_start w ag cl) @ ev"
        "map fst (returns ev) = [1..<1 + length cl]"
        "combined_history s =
           combined_history (loop_start w ag cl) @ concat (map (returned_steps \<circ> snd) (returns ev))"
        "list_all (is_completed \<circ> snd) (returns ev)"
    by blast
  have l: "returns (log (run w ag task website)) = returns ev"
    using succeeded(3) ev(1) by simp
  from ok succeeded(3) have tr: "history tr = combined_history s" by auto
  have "history tr = concat (map (returned_steps \<circ> snd) (returns (log (run w ag task website))))"
    unfolding l tr using ev(3) by simp
  moreover have "list_all (is_completed \<circ> snd) (returns (log (run w ag task website)))"
    unfolding l by (rule ev(4))
  moreover have "map fst (returns (log (run w ag task website))) = [1..<Suc (length cl)]"
    unfolding l using ev(2) by simp
  ultimately show ?thesis using succeeded(1) by blast
qed

text \<open>
  The same run: the calls hand back two steps, none and one, and the trace holds the
  three steps in this order.
\<close>

theorem trace_is_concatenation_witness:
  "returned (run (ex_world [ex_done [''a'', ''b''], ex_done [], ex_done [''c'']])
      (ex_agent ex_checklist) ''task'' ''site'') =
     Inr \<lparr>history = [''a'', ''b'', ''c''],
          subtask_history = map done_status
            [''open search page'', ''apply filter X'', ''select first result'']\<rparr> \<and>
   map (returned_steps \<circ> snd)
     (returns (log (run (ex_world [ex_done [''a'', ''b''], ex_done [], ex_done [''c'']])
        (ex_agent ex_checklist) ''task'' ''site''))) =
     [[''a'', ''b''], [], [''c'']] \<and>
   [''a'', ''b'', ''c''] =
     concat (map (returned_steps \<circ> snd)
       (returns (log (run (ex_world [ex_done [''a'', ''b''], ex_done [], ex_done [''c'']])
          (ex_agent ex_checklist) ''task'' ''site''))))"
proof -
  let ?r = "run (ex_world [ex_done [''a'', ''b''], ex_done [], ex_done [''c'']])
      (ex_agent ex_checklist) ''task'' ''site''"
  let ?cl = "[''open search page'', ''apply filter X'', ''select first result'']"
  let ?tr = "\<lparr>history = [''a'', ''b'', ''c''], subtask_history = map done_status ?cl\<rparr>"
  have ok: "returned ?r = Inr ?tr"
    by code_simp
  have rs: "map (returned_steps \<circ> snd) (returns (log ?r)) = [[''a'', ''b''], [], [''c'']]"
    by code_simp
  from trace_is_concatenation[OF ok]
  have "history ?tr = concat (map (returned_steps \<circ> snd) (returns (log ?r)))"
    by blast
  then have "[''a'', ''b'', ''c''] = concat (map (returned_steps \<circ> snd) (returns (log ?r)))"
    by simp
  with ok rs show ?thesis by blast
qed

section \<open>A subtask that fails ends the run\<close>






section \<open>The status list keeps its shape\<close>

text \<open>
  Claim C8. Wherever the run shows its status list, the list is in order: when subtask
  \<open>i\<close> is handed to the executor, the statuses before \<open>i\<close> are terminal and those
  from \<open>i\<close> on are pending (the one being run among them: the code has no mark for
  it); once the status of \<open>i\<close> is marked, the statuses up to \<open>i\<close> are terminal and
  the later ones pending. The list the run ends with is of this shape too. Marking the
  next pending status done, or failed, keeps the shape. No status is ever running, so at
  most one is.
\<close>

theorem status_invariant:
  "list_all event_inv (log (run w ag task website)) \<and>
   (\<exists>k. status_inv k (final_statuses (run w ag task website))) \<and>
   (\<forall>k sts sts'. status_inv k sts \<and> update_status (Suc k) mark_done sts = Inr sts'
       \<longrightarrow> status_inv (Suc k) sts') \<and>
   (\<forall>k sts sts' e. status_inv k sts \<and> update_status (Suc k) (\<lambda>st. mark_error st e) sts = Inr sts'
       \<longrightarrow> status_inv (Suc k) sts') \<and>
   (\<forall>sts. running_count sts \<le> 1)"
proof (intro conjI allI impI)
  show "list_all event_inv (log (run w ag task website))"
  proof (cases rule: run_cases[of ag task website w])
    case (plan_failed e)
    then show ?thesis by simp
  next
    case (failed cl e s)
    from run_loop_event_inv[OF loop_start_inv failed(2)] obtain ev where
      "events s = events (loop_start w ag cl) @ ev" "list_all event_inv ev" by blast
    with failed(3) show ?thesis by simp
  next
    case (succeeded cl s)
    from run_loop_event_inv[OF loop_start_inv succeeded(2)] obtain ev where
      "events s = events (loop_start w ag cl) @ ev" "list_all event_inv ev" by blast
    with succeeded(3) show ?thesis by simp
  qed
next
  show "\<exists>k. status_inv k (final_statuses (run w ag task website))"
  proof (cases rule: run_cases[of ag task website w])
    case (plan_failed e)
    have "status_inv 0 []" by (simp add: status_inv_def running_count_zero)
    with plan_failed show ?thesis by auto
  next
    case (failed cl e s)
    from run_loop_event_inv[OF loop_start_inv failed(2)] failed(3) show ?thesis by auto
  next
    case (succeeded cl s)
    from run_loop_event_inv[OF loop_start_inv succeeded(2)] succeeded(3) show ?thesis by auto
  qed
next
  fix k sts sts'
  assume "status_inv k sts \<and> update_status (Suc k) mark_done sts = Inr sts'"
  then show "status_inv (Suc k) sts'"
    using status_inv_update[of k sts mark_done sts'] mark_done_terminal by blast
next
  fix k sts sts' e
  assume "status_inv k sts \<and> update_status (Suc k) (\<lambda>st. mark_error st e) sts = Inr sts'"
  then show "status_inv (Suc k) sts'"
    using status_inv_update[of k sts "\<lambda>st. mark_error st e" sts'] mark_error_terminal by blast
next
  fix sts :: "SubtaskStatus list"
  show "running_count sts \<le> 1" by (simp add: running_count_zero)
qed

text \<open>
  A run whose second subtask raises; and the steps from two pending statuses to the
  first one done and on to the second one failed, taken on the list itself.
\<close>

theorem status_invariant_witness:
  "list_all event_inv (log (run (ex_world [ex_done [''a'', ''b''], Raised ''boom''])
      (ex_agent ex_checklist) ''task'' ''site'')) \<and>
   status_inv 0 [new_status ''open search page'', new_status ''apply filter X''] \<and>
   update_status 1 mark_done [new_status ''open search page'', new_status ''apply filter X''] =
     Inr [done_status ''open search page'', new_status ''apply filter X''] \<and>
   status_inv 1 [done_status ''open search page'', new_status ''apply filter X''] \<and>
   update_status 2 (\<lambda>st. mark_error st ''boom'')
     [done_status ''open search page'', new_status ''apply filter X''] =
     Inr [done_status ''open search page'', mark_error (new_status ''apply filter X'') ''boom''] \<and>
   status_inv 2 [done_status ''open search page'', mark_error (new_status ''apply filter X'') ''boom'']"
proof -
  let ?new = "[new_status ''open search page'', new_status ''apply filter X'']"
  let ?sts = "[done_status ''open search page'', new_status ''apply filter X'']"
  let ?sts' = "[done_status ''open search page'', mark_error (new_status ''apply filter X'') ''boom'']"
  note inv = status_invariant[of "ex_world [ex_done [''a'', ''b''], Raised ''boom'']"
      "ex_agent ex_checklist" "''task''" "''site''"]
  have i0: "status_inv 0 ?new"
    by (simp add: status_inv_def running_count_zero is_pending_def)
  have u0: "update_status (Suc 0) mark_done ?new = Inr ?sts"
    by (simp add: update_status_def)
  from inv i0 u0 have i: "status_inv (Suc 0) ?sts" by blast
  have u: "update_status (Suc (Suc 0)) (\<lambda>st. mark_error st ''boom'') ?sts = Inr ?sts'"
    by (simp add: update_status_def)
  from inv i u have i2: "status_inv (Suc (Suc 0)) ?sts'" by blast
  from inv have l: "list_all event_inv (log (run (ex_world [ex_done [''a'', ''b''], Raised ''boom''])
      (ex_agent ex_checklist) ''task'' ''site''))" by blast
  from l i0 u0 i u i2 show ?thesis by (simp add: numeral_2_eq_2)
qed

section \<open>Initial actions go to the first subtask only\<close>

text \<open>
  Claim C10. In every run, whatever the executor does, the call for a subtask with
  index 2 or more is built without \<^verbatim>\<open>initial_actions\<close>; the call for subtask 1 gets
  the agent's initial actions when there are any.
\<close>

theorem initial_actions_first_only:
  "\<forall>c \<in> set (calls (log (run w ag task website))).
     1 \<le> fst c \<and>
     (2 \<le> fst c \<longrightarrow> p_initial_actions (snd c) = None) \<and>
     (fst c = 1 \<longrightarrow> p_initial_actions (snd c) =
        (case initial_actions ag of None \<Rightarrow> None | Some [] \<Rightarrow> None
         | Some (a # acts) \<Rightarrow> Some (a # acts)))"
proof -
  have ia: "initial_actions (started ag) = initial_actions ag"
    by (simp add: init_browser_def)
  have P: "1 \<le> fst c \<and>
     (2 \<le> fst c \<longrightarrow> p_initial_actions (snd c) = None) \<and>
     (fst c = 1 \<longrightarrow> p_initial_actions (snd c) =
        (case initial_actions ag of None \<Rightarrow> None | Some [] \<Rightarrow> None
         | Some (a # acts) \<Rightarrow> Some (a # acts)))"
    if "1 \<le> fst c" "p_initial_actions (snd c) =
          p_initial_actions (build_params (started ag) [] (fst c) [] None [])" for c :: "nat \<times> params"
    using that ia by (auto simp: build_params_def split: option.splits list.splits)
  show ?thesis
  proof (cases rule: run_cases[of ag task website w])
    case (plan_failed e)
    then show ?thesis by (simp split: if_splits)
  next
    case (failed cl e s)
    from run_loop_initial_actions[OF loop_start_inv failed(2)] obtain ev where
      ev: "events s = events (loop_start w ag cl) @ ev"
        "\<forall>c \<in> set (calls ev). 1 \<le> fst c \<and> p_initial_actions (snd c) =
          p_initial_actions (build_params (started ag) [] (fst c) [] None [])" by blast
    have "calls (log (run w ag task website)) = calls ev" using failed(3) ev(1) by simp
    with ev(2) P show ?thesis by metis
  next
    case (succeeded cl s)
    from run_loop_initial_actions[OF loop_start_inv succeeded(2)] obtain ev where
      ev: "events s = events (loop_start w ag cl) @ ev"
        "\<forall>c \<in> set (calls ev). 1 \<le> fst c \<and> p_initial_actions (snd c) =
          p_initial_actions (build_params (started ag) [] (fst c) [] None [])" by blast
    have "calls (log (run w ag task website)) = calls ev" using succeeded(3) ev(1) by simp
    with ev(2) P show ?thesis by metis
  qed
qed

text \<open>
  Initial actions configured, the first subtask completes, the second raises: the first
  call has the initial actions, the second has none.
\<close>

theorem initial_actions_first_only_witness:
  "map (p_initial_actions \<circ> snd)
     (calls (log (run (ex_world [ex_done [''a'', ''b''], Raised ''boom''])
        (ex_agent ex_checklist) ''task'' ''site''))) =
     [Some [(''go_to_url'', [(''url'', ''site'')])], None] \<and>
   map fst
     (calls (log (run (ex_world [ex_done [''a'', ''b''], Raised ''boom''])
        (ex_agent ex_checklist) ''task'' ''site''))) = [1, 2]"
proof -
  let ?cs = "calls (log (run (ex_world [ex_done [''a'', ''b''], Raised ''boom''])
        (ex_agent ex_checklist) ''task'' ''site''))"
  have f: "map fst ?cs = [1, 2]" by code_simp
  from arg_cong[OF f, of length] have len: "length ?cs = 2" by simp
  have i: "initial_actions (ex_agent ex_checklist) = Some [(''go_to_url'', [(''url'', ''site'')])]"
    by (simp add: ex_agent_def init_agent_def)
  from f len have f0: "fst (?cs ! 0) = 1" and f1: "fst (?cs ! 1) = 2"
    using nth_map[of 0 ?cs fst] nth_map[of 1 ?cs fst] by simp_all
  from len have m: "?cs ! 0 \<in> set ?cs" "?cs ! 1 \<in> set ?cs" by simp_all
  from initial_actions_first_only[of "ex_world [ex_done [''a'', ''b''], Raised ''boom'']"
      "ex_agent ex_checklist" "''task''" "''site''"] m f0 f1 i
  have "p_initial_actions (snd (?cs ! 0)) = Some [(''go_to_url'', [(''url'', ''site'')])]"
    and "p_initial_actions (snd (?cs ! 1)) = None"
    by auto
  with len have "map (p_initial_actions \<circ> snd) ?cs = [Some [(''go_to_url'', [(''url'', ''site'')])], None]"
    by (simp add: list_eq_iff_nth_eq nth_Cons' numeral_2_eq_2 less_Suc_eq)
  with f show ?thesis by simp
qed

section \<open>Planning comes first\<close>

text \<open>
  Claim C3, as the code has it. The planner calls the first chain with the task and
  the site, each stripped of white space; when a chain raises, the planner raises the
  same error. When both chains return, the planner raises its type error exactly when a
  step of the refined plan is not a string, and else returns the steps; an empty plan is
  returned like any other. When the planner raises, the run
  raises the same error and the executor is never called. A run that returns a trace
  had a refined plan of strings, one status and one executor call for each of them; with
  the empty plan it returns the empty trace.
\<close>

theorem planning_checks:
  "(\<forall>raw steps.
      planner_chain (planner ag) (strip task @ ''. Website: '' @ strip website) = ChainPlan raw \<and>
      refine_chain (planner ag) raw = ChainPlan steps \<longrightarrow>
      plan (planner ag) task website =
        (if list_all isinstance_str steps then Inr (map str_value steps)
         else Inl (TypeError ''Planner must return List[str]''))) \<and>
   (\<forall>e.
      planner_chain (planner ag) (strip task @ ''. Website: '' @ strip website) = ChainRaised e
      \<longrightarrow> plan (planner ag) task website = Inl e) \<and>
   (\<forall>raw e.
      planner_chain (planner ag) (strip task @ ''. Website: '' @ strip website) = ChainPlan raw \<and>
      refine_chain (planner ag) raw = ChainRaised e \<longrightarrow>
      plan (planner ag) task website = Inl e) \<and>
   (\<forall>e. plan (planner ag) task website = Inl e \<longrightarrow>
      returned (run w ag task website) = Inl e \<and>
      calls (log (run w ag task website)) = [] \<and>
      returns (log (run w ag task website)) = []) \<and>
   (\<forall>tr. returned (run w ag task website) = Inr tr \<longrightarrow>
      (\<exists>raw steps.
         planner_chain (planner ag) (strip task @ ''. Website: '' @ strip website) = ChainPlan raw \<and>
         refine_chain (planner ag) raw = ChainPlan steps \<and>
         list_all isinstance_str steps \<and>
         map name (subtask_history tr) = map str_value steps \<and>
         map (p_task \<circ> snd) (calls (log (run w ag task website))) = map str_value steps)) \<and>
   (plan (planner ag) task website = Inr [] \<longrightarrow>
      returned (run w ag task website) = Inr \<lparr>history = [], subtask_history = []\<rparr>)"
proof (intro conjI allI impI)
  fix raw steps
  assume "planner_chain (planner ag) (strip task @ ''. Website: '' @ strip website) = ChainPlan raw \<and>
      refine_chain (planner ag) raw = ChainPlan steps"
  then show "plan (planner ag) task website =
        (if list_all isinstance_str steps then Inr (map str_value steps)
         else Inl (TypeError ''Planner must return List[str]''))"
    by (simp add: plan_def Let_def)
next
  fix e
  assume "planner_chain (planner ag) (strip task @ ''. Website: '' @ strip website) = ChainRaised e"
  then show "plan (planner ag) task website = Inl e"
    by (simp add: plan_def Let_def)
next
  fix raw e
  assume "planner_chain (planner ag) (strip task @ ''. Website: '' @ strip website) = ChainPlan raw \<and>
      refine_chain (planner ag) raw = ChainRaised e"
  then show "plan (planner ag) task website = Inl e"
    by (simp add: plan_def Let_def)
next
  fix e assume e: "plan (planner ag) task website = Inl e"
  from run_plan_failed[OF e, of w]
  show "returned (run w ag task website) = Inl e"
    "calls (log (run w ag task website)) = []"
    "returns (log (run w ag task website)) = []"
    by (simp_all split: if_splits)
next
  fix tr assume ok: "returned (run w ag task website) = Inr tr"
  have "\<exists>cl. plan (planner ag) task website = Inr cl \<and>
      map (p_task \<circ> snd) (calls (log (run w ag task website))) = cl \<and>
      map name (subtask_history tr) = cl"
  proof (cases rule: run_cases[of ag task website w])
    case (plan_failed e)
    then show ?thesis using ok by simp
  next
    case (failed cl e s)
    then show ?thesis using ok by simp
  next
    case (succeeded cl s)
    from run_loop_success[OF loop_start_inv succeeded(2)] obtain ev where
      ev: "events s = events (loop_start w ag cl) @ ev"
          "statuses s = map done_status ([] @ cl)"
          "map (p_task \<circ> snd) (calls ev) = cl"
      by blast
    from ev(2) have "map name (statuses s) = cl"
      by (simp add: comp_def new_status_def mark_done_def)
    with succeeded(3) ok have n: "map name (subtask_history tr) = cl" by auto
    have "map (p_task \<circ> snd) (calls (log (run w ag task website))) = cl"
      using succeeded(3) ev(1,3) by simp
    with n succeeded(1) show ?thesis by blast
  qed
  then obtain cl where
    cl: "plan (planner ag) task website = Inr cl"
      "map (p_task \<circ> snd) (calls (log (run w ag task website))) = cl"
      "map name (subtask_history tr) = cl"
    by blast
  from cl(1) obtain raw steps where
    ch: "planner_chain (planner ag) (strip task @ ''. Website: '' @ strip website) = ChainPlan raw"
      "refine_chain (planner ag) raw = ChainPlan steps"
      "list_all isinstance_str steps" "cl = map str_value steps"
    by (auto simp: plan_def Let_def split: chain_result.splits if_splits)
  with ch cl(2,3)
  show "\<exists>raw steps.
         planner_chain (planner ag) (strip task @ ''. Website: '' @ strip website) = ChainPlan raw \<and>
         refine_chain (planner ag) raw = ChainPlan steps \<and>
         list_all isinstance_str steps \<and>
         map name (subtask_history tr) = map str_value steps \<and>
         map (p_task \<circ> snd) (calls (log (run w ag task website))) = map str_value steps"
    by blast
next
  assume "plan (planner ag) task website = Inr []"
  then show "returned (run w ag task website) = Inr \<lparr>history = [], subtask_history = []\<rparr>"
    by (simp add: run_def Let_def)
qed

text \<open>
  A refined plan with a step that is a number: the type error, and the executor, though
  it would complete, is not called. A plan of one string: one call, for that string. The
  empty plan: the empty trace. A first chain that raises, and a second chain that raises:
  the planner, and the run, raise the same. And a task with white space around it, some
  of it beyond ASCII, and a site that is white space only.
\<close>

theorem planning_checks_witness:
  "planner_chain (planner (ex_agent [PyStr ''open search page'', PyInt 3]))
       (strip ''task'' @ ''. Website: '' @ strip ''site'') =
     ChainPlan [PyStr ''open search page'', PyInt 3] \<and>
   refine_chain (planner (ex_agent [PyStr ''open search page'', PyInt 3]))
       [PyStr ''open search page'', PyInt 3] =
     ChainPlan [PyStr ''open search page'', PyInt 3] \<and>
   plan (planner (ex_agent [PyStr ''open search page'', PyInt 3])) ''task'' ''site'' =
     Inl (TypeError ''Planner must return List[str]'') \<and>
   returned (run (ex_world [ex_done [''a'']]) (ex_agent [PyStr ''open search page'', PyInt 3])
       ''task'' ''site'') = Inl (TypeError ''Planner must return List[str]'') \<and>
   calls (log (run (ex_world [ex_done [''a'']]) (ex_agent [PyStr ''open search page'', PyInt 3])
       ''task'' ''site'')) = [] \<and>
   returned (run (ex_world [ex_done [''a'']]) (ex_agent [PyStr ''open search page''])
       ''task'' ''site'') =
     Inr \<lparr>history = [''a''], subtask_history = [done_status ''open search page'']\<rparr> \<and>
   map (p_task \<circ> snd)
     (calls (log (run (ex_world [ex_done [''a'']]) (ex_agent [PyStr ''open search page''])
       ''task'' ''site''))) = [''open search page''] \<and>
   plan (planner (ex_agent [])) ''task'' ''site'' = Inr [] \<and>
   returned (run (ex_world [ex_done [''a'']]) (ex_agent []) ''task'' ''site'') =
     Inr \<lparr>history = [], subtask_history = []\<rparr> \<and>
   plan \<lparr>planner_chain = (\<lambda>t. ChainRaised (ChainError ''quota exceeded'')),
         refine_chain = (\<lambda>raw. ChainPlan raw)\<rparr> ''task'' ''site'' =
     Inl (ChainError ''quota exceeded'') \<and>
   returned (run (ex_world [ex_done [''a'']])
       ((ex_agent [])\<lparr>planner :=
          \<lparr>planner_chain = (\<lambda>t. ChainRaised (ChainError ''quota exceeded'')),
           refine_chain = (\<lambda>raw. ChainPlan raw)\<rparr>\<rparr>) ''task'' ''site'') =
     Inl (ChainError ''quota exceeded'') \<and>
   plan \<lparr>planner_chain = (\<lambda>t. ChainPlan [PyStr ''open search page'']),
         refine_chain = (\<lambda>raw. ChainRaised (ChainError ''no answer''))\<rparr> ''task'' ''site'' =
     Inl (ChainError ''no answer'') \<and>
   strip ([CHR 0xC2, CHR 0xA0] @ '' find a  driver '' @ [CHR 0xE2, CHR 0x80, CHR 0x83, CHR 0x0A]) @
     ''. Website: '' @ strip [CHR 0x09, CHR 0x20] = ''find a  driver. Website: ''"
proof -
  let ?p1 = "\<lparr>planner_chain = (\<lambda>t. ChainRaised (ChainError ''quota exceeded'')),
         refine_chain = (\<lambda>raw. ChainPlan raw)\<rparr>"
  let ?a1 = "(ex_agent [])\<lparr>planner := ?p1\<rparr>"
  let ?p2 = "\<lparr>planner_chain = (\<lambda>t. ChainPlan [PyStr ''open search page'']),
         refine_chain = (\<lambda>raw. ChainRaised (ChainError ''no answer''))\<rparr>"
  let ?a2 = "(ex_agent [])\<lparr>planner := ?p2\<rparr>"
  note g1 = planning_checks[of ?a1 "''task''" "''site''" "ex_world [ex_done [''a'']]"]
  note g2 = planning_checks[of ?a2 "''task''" "''site''" "ex_world [ex_done [''a'']]"]
  have pa: "planner ?a1 = ?p1" "planner ?a2 = ?p2" by simp_all
  have "planner_chain (planner ?a1) (strip ''task'' @ ''. Website: '' @ strip ''site'') =
      ChainRaised (ChainError ''quota exceeded'')" by simp
  with g1 have q1: "plan (planner ?a1) ''task'' ''site'' = Inl (ChainError ''quota exceeded'')"
    by blast
  with g1 have q2: "returned (run (ex_world [ex_done [''a'']]) ?a1 ''task'' ''site'') =
      Inl (ChainError ''quota exceeded'')"
    by blast
  have "planner_chain (planner ?a2) (strip ''task'' @ ''. Website: '' @ strip ''site'') =
      ChainPlan [PyStr ''open search page''] \<and>
      refine_chain (planner ?a2) [PyStr ''open search page''] = ChainRaised (ChainError ''no answer'')"
    by simp
  with g2 have q3: "plan (planner ?a2) ''task'' ''site'' = Inl (ChainError ''no answer'')"
    by blast
  have q4: "strip ([CHR 0xC2, CHR 0xA0] @ '' find a  driver '' @ [CHR 0xE2, CHR 0x80, CHR 0x83, CHR 0x0A]) @
     ''. Website: '' @ strip [CHR 0x09, CHR 0x20] = ''find a  driver. Website: ''"
    by code_simp
  let ?steps = "[PyStr ''open search page'', PyInt 3]"
  let ?ag = "ex_agent ?steps"
  let ?w = "ex_world [ex_done [''a'']]"
  let ?ok = "ex_agent [PyStr ''open search page'']"
  let ?tr = "\<lparr>history = [''a''], subtask_history = [done_status ''open search page'']\<rparr>"
  note g = planning_checks[of ?ag "''task''" "''site''" ?w]
  have c: "planner_chain (planner ?ag) (strip ''task'' @ ''. Website: '' @ strip ''site'') =
      ChainPlan ?steps \<and> refine_chain (planner ?ag) ?steps = ChainPlan ?steps"
    by (simp add: ex_agent_def init_agent_def ex_planner_def)
  with g have p: "plan (planner ?ag) ''task'' ''site'' =
     (if list_all isinstance_str ?steps then Inr (map str_value ?steps)
      else Inl (TypeError ''Planner must return List[str]''))"
    by blast
  then have p': "plan (planner ?ag) ''task'' ''site'' = Inl (TypeError ''Planner must return List[str]'')"
    by simp
  with g have f: "returned (run ?w ?ag ''task'' ''site'') = Inl (TypeError ''Planner must return List[str]'')"
    "calls (log (run ?w ?ag ''task'' ''site'')) = []"
    by blast+
  have ok: "returned (run ?w ?ok ''task'' ''site'') = Inr ?tr"
    by code_simp
  have ch: "planner_chain (planner ?ok) (strip ''task'' @ ''. Website: '' @ strip ''site'') =
      ChainPlan [PyStr ''open search page'']"
    "\<And>raw. refine_chain (planner ?ok) raw = ChainPlan raw"
    by (simp_all add: ex_agent_def init_agent_def ex_planner_def)
  from planning_checks[of ?ok "''task''" "''site''" ?w] ok obtain raw steps where
    rs: "planner_chain (planner ?ok) (strip ''task'' @ ''. Website: '' @ strip ''site'') = ChainPlan raw"
      "refine_chain (planner ?ok) raw = ChainPlan steps"
      "map (p_task \<circ> snd) (calls (log (run ?w ?ok ''task'' ''site''))) = map str_value steps"
    by blast
  from rs(1,2) ch have "steps = [PyStr ''open search page'']" by simp
  with rs(3) have t: "map (p_task \<circ> snd) (calls (log (run ?w ?ok ''task'' ''site''))) =
      [''open search page'']" by simp
  have e: "plan (planner (ex_agent [])) ''task'' ''site'' = Inr []"
    by code_simp
  with planning_checks[of "ex_agent []" "''task''" "''site''" ?w]
  have r: "returned (run ?w (ex_agent []) ''task'' ''site'') = Inr \<lparr>history = [], subtask_history = []\<rparr>"
    by blast
  from c p' f ok t e r q1 q2 q3 q4 pa show ?thesis by simp
qed

text \<open>
  The claim as it was stated fails for the empty plan: the planner returns it without
  an error, and the run returns the empty trace.
\<close>

theorem empty_plan_counterexample:
  "refine_chain (planner (ex_agent [])) [] = ChainPlan [] \<and>
   plan (planner (ex_agent [])) ''task'' ''site'' = Inr [] \<and>
   returned (run (ex_world []) (ex_agent []) ''task'' ''site'') =
     Inr \<lparr>history = [], subtask_history = []\<rparr>"
  by code_simp

section \<open>What the caller gets\<close>

text \<open>
  Claim C9, as the code has it. The caller gets one of two things. Either the
  dictionary: then every status in it is done, there is one status for each entry of the
  checklist, and the steps and statuses are those the run ended with. Or the exception,
  and nothing else: \<^verbatim>\<open>run_task\<close> then writes a result with an empty action history
  and the text of the exception (a cancellation passes through it).
\<close>

theorem caller_outcomes:
  "(case returned (run w ag task website) of
      Inr tr \<Rightarrow>
        list_all done (subtask_history tr) \<and>
        plan (planner ag) task website = Inr (map name (subtask_history tr)) \<and>
        history tr = final_history (run w ag task website) \<and>
        subtask_history tr = final_statuses (run w ag task website) \<and>
        run_task w ag task website = SavedTrace tr
    | Inl e \<Rightarrow>
        run_task w ag task website =
          (if e = CancelledError then Propagated e
           else ErrorResult [] (''Exception: '' @ str_exn e)))"
proof (cases rule: run_cases[of ag task website w])
  case (plan_failed e)
  then show ?thesis by (cases e) (simp_all add: run_task_def)
next
  case (failed cl e s)
  then show ?thesis by (cases e) (simp_all add: run_task_def)
next
  case (succeeded cl s)
  from run_loop_success[OF loop_start_inv succeeded(2)]
  have sts: "statuses s = map done_status ([] @ cl)" by blast
  then have "map name (statuses s) = cl" "list_all done (statuses s)"
    by (simp_all add: comp_def new_status_def mark_done_def list_all_iff)
  with succeeded(1,3) show ?thesis by (simp add: run_task_def)
qed

text \<open>
  The claim as it was stated fails: a run that recorded two steps before its second
  subtask timed out and a run that timed out at once hand the caller the same value,
  the timeout error, and \<^verbatim>\<open>run_task\<close> writes a result without any step.
\<close>

theorem partial_trace_lost_counterexample:
  "returned (run (ex_world [ex_done [''a'', ''b''], TimedOut]) (ex_agent ex_checklist) ''task'' ''site'')
     = Inl (TimeoutError []) \<and>
   final_history (run (ex_world [ex_done [''a'', ''b''], TimedOut]) (ex_agent ex_checklist) ''task'' ''site'')
     = [''a'', ''b''] \<and>
   returned (run (ex_world [TimedOut]) (ex_agent [PyStr ''open search page'']) ''task'' ''site'')
     = Inl (TimeoutError []) \<and>
   final_history (run (ex_world [TimedOut]) (ex_agent [PyStr ''open search page'']) ''task'' ''site'')
     = [] \<and>
   run_task (ex_world [ex_done [''a'', ''b''], TimedOut]) (ex_agent ex_checklist) ''task'' ''site''
     = ErrorResult [] ''Exception: ''"
  by code_simp

section \<open>Teardown\<close>

lemma teardown_count:
  "kills (log (run w ag task website)) =
     (case plan (planner ag) task website of
        Inl e \<Rightarrow> 0
      | Inr cl \<Rightarrow> (case returned (run w ag task website) of Inl e \<Rightarrow> 1 | Inr tr \<Rightarrow> 2))"
proof (cases rule: run_cases[of ag task website w])
  case (plan_failed e)
  then show ?thesis by (simp split: if_splits)
next
  case (failed cl e s)
  from run_loop_failure[OF loop_start_inv failed(2)] obtain ev where
    "events s = events (loop_start w ag cl) @ ev" "kills ev = 0" by blast
  with failed show ?thesis by simp
next
  case (succeeded cl s)
  from run_loop_success[OF loop_start_inv succeeded(2)] obtain ev where
    "events s = events (loop_start w ag cl) @ ev" "kills ev = 0" by blast
  with succeeded show ?thesis by simp
qed

text \<open>
  Claim C1 does not hold of the code. A run whose only subtask completes kills the
  session twice and stops Playwright twice: once in the \<^verbatim>\<open>finally\<close> block and once
  more in the statements after it. A run whose planner raises starts Playwright and
  then neither kills a session nor stops Playwright.
\<close>

theorem teardown_not_once:
  "returned (run (ex_world [ex_done [''a'', ''b'']]) (ex_agent [PyStr ''open search page''])
     ''task'' ''site'') =
     Inr \<lparr>history = [''a'', ''b''], subtask_history = [done_status ''open search page'']\<rparr> \<and>
   kills (log (run (ex_world [ex_done [''a'', ''b'']]) (ex_agent [PyStr ''open search page''])
     ''task'' ''site'')) = 2 \<and>
   stops (log (run (ex_world [ex_done [''a'', ''b'']]) (ex_agent [PyStr ''open search page''])
     ''task'' ''site'')) = 2 \<and>
   returned (run (ex_world [ex_done [''a'', ''b'']]) (ex_agent [PyInt 3]) ''task'' ''site'') =
     Inl (TypeError ''Planner must return List[str]'') \<and>
   log (run (ex_world [ex_done [''a'', ''b'']]) (ex_agent [PyInt 3]) ''task'' ''site'') =
     [PlaywrightStart, PlanCall] \<and>
   kills (log (run (ex_world [ex_done [''a'', ''b'']]) (ex_agent [PyInt 3]) ''task'' ''site'')) = 0 \<and>
   stops (log (run (ex_world [ex_done [''a'', ''b'']]) (ex_agent [PyInt 3]) ''task'' ''site'')) = 0"
proof -
  let ?ok = "run (ex_world [ex_done [''a'', ''b'']]) (ex_agent [PyStr ''open search page''])
     ''task'' ''site''"
  let ?bad = "run (ex_world [ex_done [''a'', ''b'']]) (ex_agent [PyInt 3]) ''task'' ''site''"
  have 1: "returned ?ok =
      Inr \<lparr>history = [''a'', ''b''], subtask_history = [done_status ''open search page'']\<rparr>"
    by code_simp
  have 2: "kills (log ?ok) = 2" "stops (log ?ok) = 2"
    by code_simp+
  have p: "plan (planner (ex_agent [PyInt 3])) ''task'' ''site'' =
      Inl (TypeError ''Planner must return List[str]'')"
    by code_simp
  have c: "\<not> context (ex_agent [PyInt 3])"
    by (simp add: ex_agent_def init_agent_def)
  from run_plan_failed[OF p, of "ex_world [ex_done [''a'', ''b'']]"] c
  have 3: "returned ?bad = Inl (TypeError ''Planner must return List[str]'')"
    and 4: "log ?bad = [PlaywrightStart, PlanCall]"
    by simp_all
  from 4 have 5: "kills (log ?bad) = 0" "stops (log ?bad) = 0" by simp_all
  from 1 2 3 4 5 show ?thesis by blast
qed

end
